theory Spec2Isabelle
  imports Main "HOL-Library.FSet" "HOL-Library.List_Lexorder" "HOL-Library.Multiset"
begin

section \<open>csv2xlsx: a shallow embedding of \<^verbatim>\<open>csv2xlsx.py\<close>\<close>

text \<open>
  The program turns a directory of CSV files into one workbook, one worksheet per file.
  This theory embeds its functions as HOL functions and proves the properties its
  specification states about them.

  Conventions of the embedding:
  \<^item> a Python \<^verbatim>\<open>str\<close> is a list of Unicode code points (\<open>nat list\<close>), so that
    \<open>length\<close> is Python's \<^verbatim>\<open>len\<close> and comparison is comparison by code point;
  \<^item> a Python \<^verbatim>\<open>set\<close> of strings is a finite set (\<open>str fset\<close>);
  \<^item> a call that may raise returns \<open>py_exception + 'a\<close>, with \<open>Inl\<close> the exception;
  \<^item> \<^verbatim>\<open>os.path\<close> is \<^verbatim>\<open>posixpath\<close>;
  \<^item> what the operating system and the libraries \<^verbatim>\<open>csv\<close> and \<^verbatim>\<open>openpyxl\<close> answer is
    a parameter of the model (the record \<open>env\<close> below), left arbitrary in the theorems;
  \<^item> a worksheet is its title, as passed to \<^verbatim>\<open>create_sheet\<close>, and the rows appended to it;
  \<^item> \<^verbatim>\<open>print\<close> adds a line to a log of events and does not fail;
  \<^item> an error is an instance of \<^verbatim>\<open>Exception\<close>, which is what \<^verbatim>\<open>except Exception\<close> catches;
    \<^verbatim>\<open>KeyboardInterrupt\<close> and \<^verbatim>\<open>SystemExit\<close> are outside the model.
\<close>

subsection \<open>Strings\<close>

type_synonym str = "nat list"

definition ustr :: "string \<Rightarrow> str" where
  "ustr s = map of_char s"

definition underscore :: nat where "underscore = 95"
definition extsep :: nat where "extsep = 46"
definition sep :: nat where "sep = 47"

text \<open>\<^verbatim>\<open>s[:n]\<close> for a Python integer \<open>n\<close>: a negative bound counts from the end.\<close>

definition slice_to :: "'a list \<Rightarrow> int \<Rightarrow> 'a list" where
  "slice_to s n = (if 0 \<le> n then take (nat n) s else take (nat (int (length s) + n)) s)"

text \<open>\<^verbatim>\<open>s[n:]\<close> for a non-negative \<open>n\<close>.\<close>

definition slice_from :: "'a list \<Rightarrow> nat \<Rightarrow> 'a list" where
  "slice_from s n = drop n s"

text \<open>\<^verbatim>\<open>s.rfind(c)\<close> for a single character \<open>c\<close>: the highest index of \<open>c\<close>, or \<open>-1\<close>.\<close>

fun rfind :: "'a list \<Rightarrow> 'a \<Rightarrow> int" where
  "rfind [] c = -1"
| "rfind (x # xs) c =
     (let r = rfind xs c in if 0 \<le> r then r + 1 else if x = c then 0 else -1)"

definition startswith :: "'a list \<Rightarrow> 'a list \<Rightarrow> bool" where
  "startswith s p = (take (length p) s = p)"

definition endswith :: "'a list \<Rightarrow> 'a list \<Rightarrow> bool" where
  "endswith s p = (length p \<le> length s \<and> drop (length s - length p) s = p)"

text \<open>
  The characters \<^verbatim>\<open>str.strip()\<close> removes: the code points for which \<^verbatim>\<open>str.isspace\<close>
  holds.
\<close>

definition isspace :: "nat \<Rightarrow> bool" where
  "isspace c = (c \<in> set ([9, 10, 11, 12, 13, 28, 29, 30, 31, 32, 133, 160, 5760]
      @ [8192 ..< 8203] @ [8232, 8233, 8239, 8287, 12288]))"

definition strip :: "str \<Rightarrow> str" where
  "strip s = rev (dropWhile isspace (rev (dropWhile isspace s)))"

text \<open>\<^verbatim>\<open>str(n)\<close> (and \<^verbatim>\<open>f"{n}"\<close>) for a non-negative integer: its decimal digits.\<close>

function str_of_nat :: "nat \<Rightarrow> str" where
  "str_of_nat n = (if n < 10 then [48 + n] else str_of_nat (n div 10) @ [48 + n mod 10])"
  by pat_completeness auto
termination
  by (relation "measure id") auto

declare str_of_nat.simps [simp del]

subsection \<open>\<^verbatim>\<open>os.path\<close>\<close>

text \<open>
  \<^verbatim>\<open>os.path.splitext(p)[0]\<close>, after \<^verbatim>\<open>genericpath._splitext\<close>: the extension starts at the
  last dot of the last path segment, unless only dots precede it in that segment.
  \<open>splitext_scan p i d\<close> is the loop that skips the leading dots: it says whether some
  character at an index in \<open>[i, d)\<close> differs from the dot.
\<close>

function splitext_scan :: "str \<Rightarrow> nat \<Rightarrow> nat \<Rightarrow> bool" where
  "splitext_scan p filenameIndex dotIndex =
     (if filenameIndex < dotIndex then
        (if slice_to (slice_from p filenameIndex) 1 \<noteq> [extsep] then True
         else splitext_scan p (filenameIndex + 1) dotIndex)
      else False)"
  by pat_completeness auto
termination
  by (relation "measure (\<lambda>(p, i, d). d - i)") auto

declare splitext_scan.simps [simp del]

definition splitext_root :: "str \<Rightarrow> str" where
  "splitext_root p =
     (let sepIndex = rfind p sep; dotIndex = rfind p extsep in
      if dotIndex > sepIndex \<and> splitext_scan p (nat (sepIndex + 1)) (nat dotIndex)
      then slice_to p dotIndex else p)"

text \<open>\<^verbatim>\<open>os.path.basename(p)\<close>: what follows the last slash.\<close>

definition basename :: "str \<Rightarrow> str" where
  "basename p = slice_from p (nat (rfind p sep + 1))"

text \<open>\<^verbatim>\<open>os.path.join(a, b)\<close> for two components.\<close>

definition join :: "str \<Rightarrow> str \<Rightarrow> str" where
  "join a b =
     (if startswith b [sep] then b
      else if a = [] \<or> endswith a [sep] then a @ b
      else a @ [sep] @ b)"

subsection \<open>The sheet-name sanitizer\<close>

text \<open>The characters \<^verbatim>\<open>[ ] : * ? / \ '\<close>.\<close>

definition ILLEGAL_SHEET_CHARS :: "nat set" where
  "ILLEGAL_SHEET_CHARS = set [91, 93, 58, 42, 63, 47, 92, 39]"

definition MAX_SHEET_LEN :: int where
  "MAX_SHEET_LEN = 31"

text \<open>
  Lines 13 to 17 of \<^verbatim>\<open>sanitize_sheet_name\<close>, on the name without its extension: the illegal
  characters replaced, the result stripped (or \<^verbatim>\<open>Sheet\<close>) and truncated.
\<close>

definition clean_name :: "str \<Rightarrow> str" where
  "clean_name name1 =
     (let name2 = map (\<lambda>ch. if ch \<in> ILLEGAL_SHEET_CHARS then underscore else ch) name1;
          name3 = (if strip name2 = [] then ustr ''Sheet'' else strip name2)
      in slice_to name3 MAX_SHEET_LEN)"

text \<open>Lines 12 to 17: the extension is removed first.\<close>

definition sheet_base :: "str \<Rightarrow> str" where
  "sheet_base name0 = clean_name (splitext_root name0)"

text \<open>The body of the \<^verbatim>\<open>while\<close> loop: the suffix and the candidate for a counter.\<close>

definition sheet_suffix :: "nat \<Rightarrow> str" where
  "sheet_suffix counter = underscore # str_of_nat counter"

definition next_candidate :: "str \<Rightarrow> nat \<Rightarrow> str" where
  "next_candidate base counter =
     (let suffix = sheet_suffix counter;
          max_base_len = MAX_SHEET_LEN - int (length suffix)
      in slice_to base max_base_len @ suffix)"

text \<open>
  The \<^verbatim>\<open>while\<close> loop of lines 22 to 26. It ends on every finite set: a candidate is longer
  than the digits of its counter, so only finitely many counters have their candidate in
  the set.
\<close>

lemma str_of_nat_bound: "n < 10 ^ length (str_of_nat n)"
proof (induction n rule: str_of_nat.induct)
  case (1 n)
  show ?case
  proof (cases "n < 10")
    case True
    then show ?thesis by (simp add: str_of_nat.simps [of n])
  next
    case False
    with 1 have "n div 10 < 10 ^ length (str_of_nat (n div 10))" by simp
    then have "n < 10 * 10 ^ length (str_of_nat (n div 10))" by simp
    with False show ?thesis by (simp add: str_of_nat.simps [of n])
  qed
qed

lemma length_next_candidate: "length (str_of_nat k) < length (next_candidate base k)"
  by (simp add: next_candidate_def sheet_suffix_def Let_def)

lemma finite_candidates: "finite {k. next_candidate base k |\<in>| used}"
proof -
  define L where "L = Max (insert 0 (length ` fset used))"
  have "k < 10 ^ L" if "next_candidate base k |\<in>| used" for k
  proof -
    have "length (next_candidate base k) \<le> L"
      unfolding L_def using that by (intro Max_ge) auto
    then have "length (str_of_nat k) \<le> L"
      using length_next_candidate [of k base] by simp
    then have "(10::nat) ^ length (str_of_nat k) \<le> 10 ^ L"
      by (simp add: power_increasing)
    with str_of_nat_bound [of k] show ?thesis by (rule less_le_trans)
  qed
  then have "{k. next_candidate base k |\<in>| used} \<subseteq> {..< 10 ^ L}" by auto
  then show ?thesis by (rule finite_subset) simp
qed

function unique_loop :: "str \<Rightarrow> str fset \<Rightarrow> str \<Rightarrow> nat \<Rightarrow> str" where
  "unique_loop base used candidate counter =
     (if candidate |\<in>| used
      then unique_loop base used (next_candidate base counter) (counter + 1)
      else candidate)"
  by pat_completeness auto
termination
proof (relation "measure (\<lambda>(base, used, candidate, counter).
         2 * card {k. counter \<le> k \<and> next_candidate base k |\<in>| used}
         + (if candidate |\<in>| used then 1 else 0))", goal_cases)
  case 1
  show ?case by simp
next
  case (2 base used candidate counter)
  let ?A = "{k. counter \<le> k \<and> next_candidate base k |\<in>| used}"
  let ?B = "{k. counter + 1 \<le> k \<and> next_candidate base k |\<in>| used}"
  have fin: "finite ?A"
    by (rule finite_subset [OF _ finite_candidates [of base used]]) auto
  show ?case
  proof (cases "next_candidate base counter |\<in>| used")
    case True
    then have "counter \<in> ?A" and "counter \<notin> ?B" by simp_all
    then have "?B \<subset> ?A" by fastforce
    then have "card ?B < card ?A" using fin by (rule psubset_card_mono [rotated])
    with 2 True show ?thesis by simp
  next
    case False
    have "?B \<subseteq> ?A" by auto
    then have "card ?B \<le> card ?A" using fin by (rule card_mono [rotated])
    with 2 False show ?thesis by simp
  qed
qed

declare unique_loop.simps [simp del]

text \<open>
  \<^verbatim>\<open>sanitize_sheet_name(name, used_names)\<close>. The set is mutated in place by the source; the
  model returns the title together with the updated set.
\<close>

definition sanitize_sheet_name :: "str \<Rightarrow> str fset \<Rightarrow> str \<times> str fset" where
  "sanitize_sheet_name name0 used =
     (let base = sheet_base name0;
          candidate = unique_loop base used base 1
      in (candidate, finsert candidate used))"

subsection \<open>Exceptions, dialects and the environment\<close>

text \<open>
  The instances of \<^verbatim>\<open>Exception\<close> the program meets, each with its message: the two classes
  it depends on by name, and any other one raised by the operating system or a library.
\<close>

datatype py_exception = FileNotFoundError str | csv_Error str | OtherError str

fun exception_str :: "py_exception \<Rightarrow> str" where
  "exception_str (FileNotFoundError m) = m"
| "exception_str (csv_Error m) = m"
| "exception_str (OtherError m) = m"

record dialect =
  delimiter :: str
  quotechar :: str
  doublequote :: bool
  skipinitialspace :: bool
  lineterminator :: str
  quoting :: nat

text \<open>\<^verbatim>\<open>csv.excel\<close>, the default comma dialect.\<close>

definition csv_excel :: dialect where
  "csv_excel = \<lparr>delimiter = [44], quotechar = [34], doublequote = True,
     skipinitialspace = False, lineterminator = [13, 10], quoting = 0\<rparr>"

type_synonym row = "str list"

record worksheet =
  title :: str
  rows :: "row list"

text \<open>
  What the operating system and the libraries answer. Every field is a parameter: the
  theorems hold for all of them.
  \<^item> \<open>listdir d\<close>: \<^verbatim>\<open>os.listdir(d)\<close>, the names in a directory, or the exception raised;
  \<^item> \<open>walk d\<close>: the triples \<^verbatim>\<open>(root, dirnames, filenames)\<close> that \<^verbatim>\<open>os.walk(d)\<close> yields;
  \<^item> \<open>unicode_lower s\<close>: \<^verbatim>\<open>s.lower()\<close> for a string with a non-ASCII character;
  \<^item> \<open>open_rb p\<close>: the bytes of the file at \<open>p\<close>, or the exception \<^verbatim>\<open>open(p, "rb")\<close> raises;
  \<^item> \<open>decode_ignore b\<close>: \<^verbatim>\<open>b.decode("utf-8", errors="ignore")\<close>;
  \<^item> \<open>sniffer_sniff t ds\<close>: \<^verbatim>\<open>csv.Sniffer().sniff(t, delimiters=ds)\<close>;
  \<^item> \<open>dialect_check d\<close>: what the validation of \<^verbatim>\<open>csv.Dialect\<close> raises for a dialect whose
    delimiter is one character long (nothing, in most versions of the library);
  \<^item> \<open>csv_reader p enc d\<close>: the rows that \<^verbatim>\<open>csv.reader\<close> yields for the file at \<open>p\<close> opened in
    text mode with encoding \<open>enc\<close>, and the exception that ends the iteration, if any;
  \<^item> \<open>ws_append r\<close>: the exception \<^verbatim>\<open>ws.append(r)\<close> raises, if any;
  \<^item> \<open>abspath\<close>, \<open>makedirs\<close>, \<open>wb_save\<close>: \<^verbatim>\<open>os.path.abspath\<close>, \<^verbatim>\<open>os.makedirs(_, exist_ok=True)\<close>
    and \<^verbatim>\<open>wb.save\<close>.
\<close>

record env =
  listdir :: "str \<Rightarrow> py_exception + str list"
  walk :: "str \<Rightarrow> (str \<times> str list \<times> str list) list"
  unicode_lower :: "str \<Rightarrow> str"
  open_rb :: "str \<Rightarrow> py_exception + nat list"
  decode_ignore :: "nat list \<Rightarrow> py_exception + str"
  sniffer_sniff :: "str \<Rightarrow> str list \<Rightarrow> py_exception + dialect"
  dialect_check :: "dialect \<Rightarrow> py_exception option"
  csv_reader :: "str \<Rightarrow> str \<Rightarrow> dialect \<Rightarrow> row list \<times> py_exception option"
  ws_append :: "row \<Rightarrow> py_exception option"
  abspath :: "str \<Rightarrow> str"
  makedirs :: "str \<Rightarrow> py_exception option"
  wb_save :: "str \<Rightarrow> worksheet list \<Rightarrow> py_exception option"

subsection \<open>The dialect sniffer\<close>

text \<open>
  Instantiating a subclass of \<^verbatim>\<open>csv.Dialect\<close> validates it: a delimiter that is not exactly
  one character long raises \<^verbatim>\<open>csv.Error\<close>.
\<close>

definition Dialect_init :: "env \<Rightarrow> dialect \<Rightarrow> py_exception + dialect" where
  "Dialect_init E d =
     (if length (delimiter d) \<noteq> 1
      then Inl (csv_Error ([34] @ ustr ''delimiter'' @ [34]
             @ ustr '' must be a 1-character string''))
      else case dialect_check E d of Some e \<Rightarrow> Inl e | None \<Rightarrow> Inr d)"

text \<open>Python's truth value of an optional string: \<^verbatim>\<open>None\<close> and \<^verbatim>\<open>""\<close> are false.\<close>

definition truthy :: "str option \<Rightarrow> bool" where
  "truthy s = (case s of None \<Rightarrow> False | Some v \<Rightarrow> v \<noteq> [])"

definition sniff_dialect :: "env \<Rightarrow> nat list \<Rightarrow> str option \<Rightarrow> py_exception + dialect" where
  "sniff_dialect E sample_bytes provided_delimiter =
     (if truthy provided_delimiter
      then Dialect_init E (csv_excel\<lparr>delimiter := the provided_delimiter\<rparr>)
      else
        (case decode_ignore E sample_bytes of
           Inl e \<Rightarrow> Inr csv_excel
         | Inr sample_text \<Rightarrow>
             (case sniffer_sniff E sample_text [[44], [59], [9], [124]] of
                Inl e \<Rightarrow> Inr csv_excel
              | Inr d \<Rightarrow> Inr d)))"

subsection \<open>The row reader\<close>

text \<open>
  \<^verbatim>\<open>read_csv_rows\<close> is a generator function: calling it runs none of its body and returns
  a generator object, which holds the arguments. The body runs when the object is
  iterated. \<open>run_generator\<close> is that iteration: the rows yielded, the exception that ends
  it (if any), and the files it tried to open, in order.
\<close>

datatype generator = Generator str str "str option"

definition read_csv_rows :: "str \<Rightarrow> str \<Rightarrow> str option \<Rightarrow> generator" where
  "read_csv_rows path encoding delim = Generator path encoding delim"

datatype event = Printed str | SheetCreated str | Opened str

fun run_generator :: "env \<Rightarrow> generator \<Rightarrow> row list \<times> py_exception option \<times> event list" where
  "run_generator E (Generator path encoding delim) =
     (case open_rb E path of
        Inl e \<Rightarrow> ([], Some e, [Opened path])
      | Inr content \<Rightarrow>
          (case sniff_dialect E (take 4096 content) delim of
             Inl e \<Rightarrow> ([], Some e, [Opened path])
           | Inr d \<Rightarrow>
               (fst (csv_reader E path encoding d), snd (csv_reader E path encoding d),
                [Opened path, Opened path])))"

subsection \<open>The file discoverer\<close>

text \<open>
  \<^verbatim>\<open>s.lower()\<close>: on an ASCII string it maps \<^verbatim>\<open>A-Z\<close> to \<^verbatim>\<open>a-z\<close>; on any other string it is what
  the Unicode tables say.
\<close>

definition ascii_lower :: "nat \<Rightarrow> nat" where
  "ascii_lower c = (if 65 \<le> c \<and> c \<le> 90 then c + 32 else c)"

definition lower :: "env \<Rightarrow> str \<Rightarrow> str" where
  "lower E s = (if list_all (\<lambda>c. c < 128) s then map ascii_lower s else unicode_lower E s)"

definition is_csv :: "env \<Rightarrow> str \<Rightarrow> bool" where
  "is_csv E fn = endswith (lower E fn) (ustr ''.csv'')"

definition find_csv_files :: "env \<Rightarrow> str \<Rightarrow> bool \<Rightarrow> py_exception + str list" where
  "find_csv_files E input_dir recursive =
     (if recursive then
        Inr (sort_key (\<lambda>p. lower E (basename p))
          (concat (map (\<lambda>(root, dirnames, filenames).
             map (join root) (filter (is_csv E) filenames)) (walk E input_dir))))
      else
        (case listdir E input_dir of
           Inl e \<Rightarrow> Inl e
         | Inr names \<Rightarrow>
             Inr (sort_key (\<lambda>p. lower E (basename p))
               (map (join input_dir) (filter (is_csv E) names)))))"

subsection \<open>The workbook builder\<close>

record state =
  sheets :: "worksheet list"
  used_names :: "str fset"
  events :: "event list"

text \<open>
  The inner loop \<^verbatim>\<open>for row in ...: ws.append(row)\<close> on the rows the generator yields: the
  rows appended, and the exception of the first \<^verbatim>\<open>append\<close> that raises.
\<close>

fun append_rows :: "env \<Rightarrow> row list \<Rightarrow> row list \<Rightarrow> row list \<times> py_exception option" where
  "append_rows E [] acc = (acc, None)"
| "append_rows E (r # rs) acc =
     (case ws_append E r of
        Some e \<Rightarrow> (acc, Some e)
      | None \<Rightarrow> append_rows E rs (acc @ [r]))"

text \<open>
  The body of the loop over the files, lines 79 to 90. The \<^verbatim>\<open>try\<close> block ends with the
  exception of an \<^verbatim>\<open>append\<close>, or else with the exception that ended the generator; the
  handler prints a warning and lets the loop go on.
\<close>

definition process_file :: "env \<Rightarrow> str \<Rightarrow> str option \<Rightarrow> bool \<Rightarrow> str \<Rightarrow> state \<Rightarrow> state" where
  "process_file E encoding delim verbose csv_path st =
     (let (sheet_name, used') = sanitize_sheet_name (basename csv_path) (used_names st);
          ev1 = SheetCreated sheet_name #
            (if verbose
             then [Printed (ustr ''Adding sheet: '' @ sheet_name @ ustr '' from '' @ csv_path)]
             else []);
          (rs, exc, ev2) = run_generator E (read_csv_rows csv_path encoding delim);
          (appended, exc') = append_rows E rs [];
          raised = (case exc' of Some e \<Rightarrow> Some e | None \<Rightarrow> exc);
          ev3 = (case raised of
                   Some e \<Rightarrow>
                     if verbose
                     then [Printed (ustr ''Warning: failed to process '' @ csv_path
                             @ ustr '': '' @ exception_str e)]
                     else []
                 | None \<Rightarrow> [])
      in \<lparr>sheets = sheets st @ [\<lparr>title = sheet_name, rows = appended\<rparr>],
          used_names = used',
          events = events st @ ev1 @ ev2 @ ev3\<rparr>)"

fun build_sheets :: "env \<Rightarrow> str \<Rightarrow> str option \<Rightarrow> bool \<Rightarrow> str list \<Rightarrow> state \<Rightarrow> state" where
  "build_sheets E encoding delim verbose [] st = st"
| "build_sheets E encoding delim verbose (csv_path # csv_files) st =
     build_sheets E encoding delim verbose csv_files
       (process_file E encoding delim verbose csv_path st)"

text \<open>\<^verbatim>\<open>os.path.dirname(p)\<close>.\<close>

definition dirname :: "str \<Rightarrow> str" where
  "dirname p =
     (let head = slice_to p (rfind p sep + 1) in
      if head \<noteq> [] \<and> head \<noteq> replicate (length head) sep
      then rev (dropWhile (\<lambda>c. c = sep) (rev head)) else head)"

definition initial_state :: state where
  "initial_state = \<lparr>sheets = [], used_names = {||}, events = []\<rparr>"

definition combine_csvs_to_excel ::
  "env \<Rightarrow> str \<Rightarrow> str \<Rightarrow> str \<Rightarrow> str option \<Rightarrow> bool \<Rightarrow> bool \<Rightarrow> py_exception + state" where
  "combine_csvs_to_excel E input_dir output_path encoding delim recursive verbose =
     (case find_csv_files E input_dir recursive of
        Inl e \<Rightarrow> Inl e
      | Inr csv_files \<Rightarrow>
          if csv_files = []
          then Inl (FileNotFoundError (ustr ''No CSV files found in: '' @ input_dir))
          else
            (let st = build_sheets E encoding delim verbose csv_files initial_state;
                 outdir = (if dirname (abspath E output_path) = [] then ustr ''.''
                           else dirname (abspath E output_path))
             in case makedirs E outdir of
                  Some e \<Rightarrow> Inl e
                | None \<Rightarrow>
                    (case wb_save E output_path (sheets st) of
                       Some e \<Rightarrow> Inl e
                     | None \<Rightarrow>
                         Inr (st\<lparr>events := events st @
                           (if verbose
                            then [Printed (ustr ''Wrote Excel workbook: '' @ output_path)]
                            else [])\<rparr>))))"

text \<open>
  The titles that successive calls of \<^verbatim>\<open>sanitize_sheet_name\<close> return when they share one
  set, as the loop of \<^verbatim>\<open>combine_csvs_to_excel\<close> makes them (lemma \<open>build_sheets_titles\<close>).
\<close>

fun sanitize_all :: "str list \<Rightarrow> str fset \<Rightarrow> str list" where
  "sanitize_all [] used = []"
| "sanitize_all (name0 # names) used =
     fst (sanitize_sheet_name name0 used) # sanitize_all names (snd (sanitize_sheet_name name0 used))"

subsection \<open>An example environment\<close>

text \<open>
  A directory \<^verbatim>\<open>data\<close> for the examples: three CSV files and a text file; the subdirectories
  \<^verbatim>\<open>x\<close> and \<^verbatim>\<open>y\<close> hold a file \<^verbatim>\<open>t.csv\<close> each. \<^verbatim>\<open>B.csv\<close> cannot be opened, reading \<^verbatim>\<open>C.CSV\<close>
  fails after its first row, and the sniffer finds no delimiter.
\<close>

definition example_env :: env where
  "example_env =
     \<lparr>listdir = (\<lambda>d. if d = ustr ''data''
          then Inr [ustr ''B.csv'', ustr ''a.csv'', ustr ''notes.txt'', ustr ''C.CSV'']
          else Inl (FileNotFoundError d)),
      walk = (\<lambda>d. if d = ustr ''data''
          then [(ustr ''data'', [ustr ''x'', ustr ''y''], [ustr ''readme.md'']),
                (ustr ''data/x'', [], [ustr ''t.csv'']),
                (ustr ''data/y'', [], [ustr ''t.csv''])]
          else []),
      unicode_lower = (\<lambda>s. s),
      open_rb = (\<lambda>p. if p = ustr ''data/B.csv''
          then Inl (OtherError (ustr ''Permission denied''))
          else Inr [107, 44, 118, 10, 49, 44, 50, 10]),
      decode_ignore = (\<lambda>b. Inr b),
      sniffer_sniff = (\<lambda>t ds. Inl (csv_Error (ustr ''Could not determine delimiter''))),
      dialect_check = (\<lambda>d. None),
      csv_reader = (\<lambda>p enc d. if p = ustr ''data/C.CSV''
          then ([[ustr ''k'', ustr ''v'']], Some (csv_Error (ustr ''line contains NUL'')))
          else ([[ustr ''k'', ustr ''v''], [ustr ''1'', ustr ''2'']], None)),
      ws_append = (\<lambda>r. None),
      abspath = (\<lambda>p. ustr ''/home/u/'' @ p),
      makedirs = (\<lambda>d. None),
      wb_save = (\<lambda>p wb. None)\<rparr>"

section \<open>Properties\<close>

subsection \<open>The uniqueness loop\<close>

lemma unique_loop_unused: "unique_loop base used candidate counter |\<notin>| used"
proof (induction base used candidate counter rule: unique_loop.induct)
  case (1 base used candidate counter)
  then show ?case by (simp add: unique_loop.simps [of base used candidate counter])
qed

lemma unique_loop_result:
  "(candidate |\<notin>| used \<and> unique_loop base used candidate counter = candidate) \<or>
   (candidate |\<in>| used \<and> (\<exists>j\<ge>counter.
      unique_loop base used candidate counter = next_candidate base j \<and>
      (\<forall>i. counter \<le> i \<and> i < j \<longrightarrow> next_candidate base i |\<in>| used)))"
proof (induction base used candidate counter rule: unique_loop.induct)
  case (1 base used candidate counter)
  show ?case
  proof (cases "candidate |\<in>| used")
    case False
    then show ?thesis by (simp add: unique_loop.simps [of base used candidate counter])
  next
    case True
    note IH = 1 [OF True]
    have step: "unique_loop base used candidate counter
        = unique_loop base used (next_candidate base counter) (counter + 1)"
      using True by (simp add: unique_loop.simps [of base used candidate counter])
    from IH show ?thesis
    proof (elim disjE conjE exE)
      assume "next_candidate base counter |\<notin>| used"
        and "unique_loop base used (next_candidate base counter) (counter + 1)
             = next_candidate base counter"
      with True step show ?thesis by auto
    next
      fix j
      assume a: "next_candidate base counter |\<in>| used" "counter + 1 \<le> j"
        "unique_loop base used (next_candidate base counter) (counter + 1) = next_candidate base j"
        "\<forall>i. counter + 1 \<le> i \<and> i < j \<longrightarrow> next_candidate base i |\<in>| used"
      have "\<forall>i. counter \<le> i \<and> i < j \<longrightarrow> next_candidate base i |\<in>| used"
      proof (intro allI impI)
        fix i assume "counter \<le> i \<and> i < j"
        then have "i = counter \<or> (counter + 1 \<le> i \<and> i < j)" by arith
        with a show "next_candidate base i |\<in>| used" by auto
      qed
      with a True step show ?thesis by (intro disjI2 conjI exI [of _ j]) auto
    qed
  qed
qed

lemma sanitize_unused: "fst (sanitize_sheet_name name0 used) |\<notin>| used"
  by (simp add: sanitize_sheet_name_def Let_def unique_loop_unused)

lemma sanitize_adds:
  "snd (sanitize_sheet_name name0 used) = finsert (fst (sanitize_sheet_name name0 used)) used"
  by (simp add: sanitize_sheet_name_def Let_def)

lemma sanitize_all_fresh: "t \<in> set (sanitize_all names used) \<Longrightarrow> t |\<notin>| used"
proof (induction names arbitrary: used)
  case Nil
  then show ?case by simp
next
  case (Cons n names)
  from Cons.prems consider "t = fst (sanitize_sheet_name n used)"
    | "t \<in> set (sanitize_all names (snd (sanitize_sheet_name n used)))" by auto
  then show ?case
  proof cases
    case 1
    then show ?thesis by (simp add: sanitize_unused)
  next
    case 2
    then have "t |\<notin>| snd (sanitize_sheet_name n used)" by (rule Cons.IH)
    then show ?thesis by (simp add: sanitize_adds)
  qed
qed

lemma sanitize_all_distinct: "distinct (sanitize_all names used)"
proof (induction names arbitrary: used)
  case Nil
  then show ?case by simp
next
  case (Cons n names)
  have "fst (sanitize_sheet_name n used)
      \<notin> set (sanitize_all names (snd (sanitize_sheet_name n used)))"
  proof
    assume "fst (sanitize_sheet_name n used)
      \<in> set (sanitize_all names (snd (sanitize_sheet_name n used)))"
    then have "fst (sanitize_sheet_name n used) |\<notin>| snd (sanitize_sheet_name n used)"
      by (rule sanitize_all_fresh)
    then show False by (simp add: sanitize_adds)
  qed
  with Cons.IH show ?case by simp
qed

lemma process_file_sheets:
  "sheets (process_file E enc d v p st) = sheets st @
     [\<lparr>title = fst (sanitize_sheet_name (basename p) (used_names st)),
       rows = fst (append_rows E (fst (run_generator E (read_csv_rows p enc d))) [])\<rparr>]"
  by (simp add: process_file_def Let_def split: prod.splits)

lemma process_file_used:
  "used_names (process_file E enc d v p st)
     = snd (sanitize_sheet_name (basename p) (used_names st))"
  by (simp add: process_file_def Let_def split: prod.splits)

lemma build_sheets_titles:
  "map title (sheets (build_sheets E enc d v files st))
     = map title (sheets st) @ sanitize_all (map basename files) (used_names st)"
  by (induction files arbitrary: st) (simp_all add: process_file_sheets process_file_used)

text \<open>
  C2. The sanitizer never returns a string that is in the set it was given, and it adds
  the string it returns to the set. So the titles of any sequence of names sanitized
  against one shared set are pairwise distinct, and so are the titles of the worksheets
  that the workbook builder creates.
\<close>

theorem titles_pairwise_distinct:
  "fst (sanitize_sheet_name name0 used) |\<notin>| used \<and>
   snd (sanitize_sheet_name name0 used) = finsert (fst (sanitize_sheet_name name0 used)) used \<and>
   distinct (sanitize_all names used) \<and>
   distinct (map title (sheets (build_sheets E enc d v files initial_state)))"
  by (simp add: sanitize_unused sanitize_adds sanitize_all_distinct build_sheets_titles
      initial_state_def)

subsection \<open>Decimal digits and candidates\<close>

lemma str_of_nat_nonempty: "str_of_nat n \<noteq> []"
  by (simp add: str_of_nat.simps [of n])

lemma str_of_nat_digits: "c \<in> set (str_of_nat n) \<Longrightarrow> 48 \<le> c \<and> c \<le> 57"
proof (induction n rule: str_of_nat.induct)
  case (1 n)
  show ?case
  proof (cases "n < 10")
    case True
    with "1.prems" show ?thesis by (simp add: str_of_nat.simps [of n])
  next
    case False
    with "1.prems" have "c \<in> set (str_of_nat (n div 10)) \<or> c = 48 + n mod 10"
      by (auto simp: str_of_nat.simps [of n])
    then show ?thesis
    proof
      assume "c \<in> set (str_of_nat (n div 10))"
      with False show ?thesis by (simp add: "1.IH")
    next
      assume "c = 48 + n mod 10"
      moreover have "n mod 10 < 10" by simp
      ultimately show ?thesis by linarith
    qed
  qed
qed

lemma str_of_nat_inj: "str_of_nat m = str_of_nat n \<Longrightarrow> m = n"
proof (induction m arbitrary: n rule: str_of_nat.induct)
  case (1 m)
  show ?case
  proof (cases "m < 10")
    case True
    show ?thesis
    proof (cases "n < 10")
      case True
      with \<open>m < 10\<close> "1.prems" show ?thesis
        by (simp add: str_of_nat.simps [of m] str_of_nat.simps [of n])
    next
      case False
      with \<open>m < 10\<close> "1.prems" show ?thesis
        by (simp add: str_of_nat.simps [of m] str_of_nat.simps [of n] str_of_nat_nonempty
            Cons_eq_append_conv)
    qed
  next
    case False
    show ?thesis
    proof (cases "n < 10")
      case True
      with False "1.prems" show ?thesis
        by (simp add: str_of_nat.simps [of m] str_of_nat.simps [of n] str_of_nat_nonempty
            append_eq_Cons_conv)
    next
      case n: False
      from False n "1.prems" have "str_of_nat (m div 10) = str_of_nat (n div 10)"
        and "m mod 10 = n mod 10"
        by (simp_all add: str_of_nat.simps [of m] str_of_nat.simps [of n])
      from "1.IH" [OF False this(1)] this(2) show ?thesis
        by (metis div_mult_mod_eq)
    qed
  qed
qed

lemma str_of_nat_length: "n < 10 ^ d \<Longrightarrow> 0 < d \<Longrightarrow> length (str_of_nat n) \<le> d"
proof (induction n arbitrary: d rule: str_of_nat.induct)
  case (1 n)
  show ?case
  proof (cases "n < 10")
    case True
    with "1.prems" show ?thesis by (simp add: str_of_nat.simps [of n])
  next
    case False
    from "1.prems" obtain d' where d: "d = Suc d'" by (cases d) auto
    from False "1.prems" d have "0 < d'" by (cases d') auto
    moreover from "1.prems" d have "n div 10 < 10 ^ d'" by (simp add: less_mult_imp_div_less mult.commute)
    ultimately have "length (str_of_nat (n div 10)) \<le> d'" using "1.IH" [OF False] by simp
    with False d show ?thesis by (simp add: str_of_nat.simps [of n])
  qed
qed

lemma next_candidate_digits:
  "rev (takeWhile (\<lambda>c. c \<noteq> underscore) (rev (next_candidate base k))) = str_of_nat k"
proof -
  have "\<forall>c \<in> set (rev (str_of_nat k)). c \<noteq> underscore"
    by (fastforce simp: underscore_def dest: str_of_nat_digits)
  then have "takeWhile (\<lambda>c. c \<noteq> underscore)
      (rev (str_of_nat k) @ underscore # rev (slice_to base (MAX_SHEET_LEN - int (length (sheet_suffix k)))))
      = rev (str_of_nat k)"
    by (simp add: takeWhile_tail)
  then show ?thesis by (simp add: next_candidate_def sheet_suffix_def Let_def)
qed

lemma next_candidate_inj: "next_candidate base j = next_candidate base k \<Longrightarrow> j = k"
  using next_candidate_digits [of base j] next_candidate_digits [of base k]
  by (auto dest: str_of_nat_inj)

lemma tried_candidates_card:
  assumes "\<forall>i. 1 \<le> i \<and> i < k \<longrightarrow> next_candidate base i |\<in>| used"
  shows "k \<le> fcard used + 1"
proof -
  have inj: "inj_on (next_candidate base) {1..<k}"
    by (rule inj_onI) (rule next_candidate_inj)
  have "next_candidate base ` {1..<k} \<subseteq> fset used" using assms by auto
  then have "card (next_candidate base ` {1..<k}) \<le> card (fset used)"
    by (intro card_mono) auto
  then have "k - 1 \<le> fcard used" using card_image [OF inj] by (simp add: fcard.rep_eq)
  then show ?thesis by simp
qed

lemma next_candidate_fits:
  assumes "k < 10 ^ 30"
  shows "next_candidate base k = take (31 - length (sheet_suffix k)) base @ sheet_suffix k"
    and "length (next_candidate base k) \<le> 31"
proof -
  have "length (str_of_nat k) \<le> 30" using assms by (rule str_of_nat_length) simp
  then have len: "length (sheet_suffix k) \<le> 31" by (simp add: sheet_suffix_def)
  then have "slice_to base (MAX_SHEET_LEN - int (length (sheet_suffix k)))
      = take (31 - length (sheet_suffix k)) base"
    by (simp add: slice_to_def MAX_SHEET_LEN_def nat_diff_distrib')
  then show "next_candidate base k = take (31 - length (sheet_suffix k)) base @ sheet_suffix k"
    by (simp add: next_candidate_def Let_def)
  with len show "length (next_candidate base k) \<le> 31" by simp
qed

text \<open>
  The bound of \<open>next_candidate_fits\<close> is sharp: the suffix of the counter \<open>10 ^ 30\<close> alone has
  32 characters. The loop reaches that counter only on a set of at least \<open>10 ^ 30 - 1\<close>
  names (lemma \<open>tried_candidates_card\<close>).
\<close>

lemma suffix_of_large_counter: "length (sheet_suffix (10 ^ 30)) = 32"
  by (simp add: sheet_suffix_def str_of_nat.simps)

lemma candidate_of_large_counter: "31 < length (next_candidate base (10 ^ 30))"
  using suffix_of_large_counter by (simp add: next_candidate_def Let_def)

lemma set_slice_to: "set (slice_to s n) \<subseteq> set s"
  by (auto simp: slice_to_def dest: in_set_takeD)

lemma set_strip: "set (strip s) \<subseteq> set s"
  by (auto simp: strip_def dest!: set_dropWhileD)

lemma underscore_legal: "underscore \<notin> ILLEGAL_SHEET_CHARS"
  by (simp add: underscore_def ILLEGAL_SHEET_CHARS_def)

lemma digit_legal: "48 \<le> c \<and> c \<le> 57 \<Longrightarrow> c \<notin> ILLEGAL_SHEET_CHARS"
  by (auto simp: ILLEGAL_SHEET_CHARS_def)

lemma Sheet_legal: "c \<in> set (ustr ''Sheet'') \<Longrightarrow> c \<notin> ILLEGAL_SHEET_CHARS"
  by (auto simp: ustr_def ILLEGAL_SHEET_CHARS_def)

lemma sheet_base_legal: "c \<in> set (sheet_base name0) \<Longrightarrow> c \<notin> ILLEGAL_SHEET_CHARS"
proof -
  let ?n2 = "map (\<lambda>ch. if ch \<in> ILLEGAL_SHEET_CHARS then underscore else ch) (splitext_root name0)"
  let ?n3 = "if strip ?n2 = [] then ustr ''Sheet'' else strip ?n2"
  assume "c \<in> set (sheet_base name0)"
  then have "c \<in> set ?n3"
    using set_slice_to [of ?n3 MAX_SHEET_LEN] by (auto simp: sheet_base_def clean_name_def Let_def)
  then consider "c \<in> set (ustr ''Sheet'')" | "c \<in> set ?n2"
    using set_strip [of ?n2] by (auto split: if_splits)
  then show ?thesis
  proof cases
    case 1
    then show ?thesis by (rule Sheet_legal)
  next
    case 2
    then show ?thesis using underscore_legal by auto
  qed
qed

lemma sheet_base_nonempty: "sheet_base name0 \<noteq> []"
  by (simp add: sheet_base_def clean_name_def Let_def slice_to_def MAX_SHEET_LEN_def ustr_def)

lemma sheet_base_length: "length (sheet_base name0) \<le> 31"
  by (simp add: sheet_base_def clean_name_def Let_def slice_to_def MAX_SHEET_LEN_def)

lemma next_candidate_legal:
  "c \<in> set (next_candidate (sheet_base name0) k) \<Longrightarrow> c \<notin> ILLEGAL_SHEET_CHARS"
proof -
  assume "c \<in> set (next_candidate (sheet_base name0) k)"
  then consider "c \<in> set (sheet_base name0)" | "c = underscore" | "c \<in> set (str_of_nat k)"
    using set_slice_to [of "sheet_base name0"]
    by (auto simp: next_candidate_def sheet_suffix_def Let_def)
  then show ?thesis
  proof cases
    case 1 then show ?thesis by (rule sheet_base_legal)
  next
    case 2 then show ?thesis by (simp add: underscore_legal)
  next
    case 3 then show ?thesis by (intro digit_legal str_of_nat_digits)
  qed
qed

lemma next_candidate_nonempty: "next_candidate base k \<noteq> []"
  by (simp add: next_candidate_def sheet_suffix_def Let_def)

subsection \<open>The title returned by the sanitizer\<close>

lemma sanitize_collision:
  assumes "sheet_base name0 |\<in>| used"
  shows "\<exists>k\<ge>1. fst (sanitize_sheet_name name0 used) = next_candidate (sheet_base name0) k \<and>
           (\<forall>i. 1 \<le> i \<and> i < k \<longrightarrow> next_candidate (sheet_base name0) i |\<in>| used) \<and>
           k \<le> fcard used + 1"
proof -
  from unique_loop_result [of "sheet_base name0" used "sheet_base name0" 1] assms
  obtain k where k: "1 \<le> k"
      "unique_loop (sheet_base name0) used (sheet_base name0) 1 = next_candidate (sheet_base name0) k"
      "\<forall>i. 1 \<le> i \<and> i < k \<longrightarrow> next_candidate (sheet_base name0) i |\<in>| used"
    by auto
  from k(3) have "k \<le> fcard used + 1" by (rule tried_candidates_card)
  with k show ?thesis by (auto simp: sanitize_sheet_name_def Let_def)
qed

lemma sanitize_cases:
  "(sheet_base name0 |\<notin>| used \<and> fst (sanitize_sheet_name name0 used) = sheet_base name0) \<or>
   (sheet_base name0 |\<in>| used \<and> (\<exists>k\<ge>1. k \<le> fcard used + 1 \<and>
      fst (sanitize_sheet_name name0 used) = next_candidate (sheet_base name0) k))"
proof (cases "sheet_base name0 |\<in>| used")
  case True
  with sanitize_collision [OF True] show ?thesis by blast
next
  case False
  then show ?thesis
    by (simp add: sanitize_sheet_name_def Let_def
        unique_loop.simps [of "sheet_base name0" used "sheet_base name0"])
qed

lemma sheet_base_example: "sheet_base (ustr ''a:b.csv'') = ustr ''a_b''"
  by (simp add: sheet_base_def clean_name_def ustr_def splitext_root_def splitext_scan.simps slice_to_def
      slice_from_def sep_def extsep_def ILLEGAL_SHEET_CHARS_def underscore_def strip_def
      isspace_def MAX_SHEET_LEN_def)

lemma sanitize_example: "fst (sanitize_sheet_name (ustr ''a:b.csv'') {||}) = ustr ''a_b''"
  by (simp add: sanitize_sheet_name_def Let_def sheet_base_example unique_loop.simps [of _ "{||}"])

text \<open>
  C1. For every name and every set of used names, the title returned is not empty and
  contains none of the illegal characters; it is at most 31 characters long for every set
  of fewer than \<open>10 ^ 30 - 1\<close> names, which every set that a Python process can hold is
  (a set has at most \<open>2 ^ 63 - 1\<close> elements).
\<close>

theorem sanitized_title_valid:
  "fst (sanitize_sheet_name name0 used) \<noteq> [] \<and>
   (\<forall>c \<in> set (fst (sanitize_sheet_name name0 used)). c \<notin> ILLEGAL_SHEET_CHARS) \<and>
   (fcard used + 1 < 10 ^ 30 \<longrightarrow>
      int (length (fst (sanitize_sheet_name name0 used))) \<le> MAX_SHEET_LEN)"
proof -
  from sanitize_cases [of name0 used] show ?thesis
  proof (elim disjE conjE exE)
    assume "fst (sanitize_sheet_name name0 used) = sheet_base name0"
    then show ?thesis
      using sheet_base_nonempty [of name0] sheet_base_length [of name0] sheet_base_legal [of _ name0]
      by (auto simp: MAX_SHEET_LEN_def)
  next
    fix k
    assume k: "k \<le> fcard used + 1"
      and eq: "fst (sanitize_sheet_name name0 used) = next_candidate (sheet_base name0) k"
    have "fcard used + 1 < 10 ^ 30 \<longrightarrow> length (next_candidate (sheet_base name0) k) \<le> 31"
    proof
      assume "fcard used + 1 < 10 ^ 30"
      with k have "k < 10 ^ 30" by simp
      then show "length (next_candidate (sheet_base name0) k) \<le> 31" by (rule next_candidate_fits)
    qed
    with eq show ?thesis
      using next_candidate_nonempty [of "sheet_base name0" k] next_candidate_legal [of _ name0 k]
      by (auto simp: MAX_SHEET_LEN_def)
  qed
qed

theorem sanitized_title_valid_witness:
  "fcard ({||} :: str fset) + 1 < 10 ^ 30 \<and>
   fst (sanitize_sheet_name (ustr ''a:b.csv'') {||}) = ustr ''a_b'' \<and>
   int (length (fst (sanitize_sheet_name (ustr ''a:b.csv'') {||}))) \<le> MAX_SHEET_LEN"
  using sanitized_title_valid [of "ustr ''a:b.csv''" "{||}"]
  by (simp add: sanitize_example fcard_fempty)

text \<open>
  C7. When the base name is already in the set, the title is the candidate of the least
  counter \<open>k \<ge> 1\<close> whose candidate is not in the set: the candidates of all smaller
  counters were tested, as the exact suffixed strings, and found in the set. The title
  ends with the whole suffix \<open>_k\<close>; and (for every set of fewer than \<open>10 ^ 30 - 1\<close> names) it
  is the base cut to \<open>31\<close> minus the length of the suffix, followed by the suffix, so at most
  31 characters long.
\<close>

theorem collision_resolved_by_suffix:
  assumes "sheet_base name0 |\<in>| used"
  shows "\<exists>k\<ge>1.
     fst (sanitize_sheet_name name0 used) = next_candidate (sheet_base name0) k \<and>
     (\<forall>i. 1 \<le> i \<and> i < k \<longrightarrow> next_candidate (sheet_base name0) i |\<in>| used) \<and>
     next_candidate (sheet_base name0) k |\<notin>| used \<and>
     endswith (next_candidate (sheet_base name0) k) (underscore # str_of_nat k) \<and>
     (fcard used + 1 < 10 ^ 30 \<longrightarrow>
        next_candidate (sheet_base name0) k
          = take (31 - length (underscore # str_of_nat k)) (sheet_base name0)
            @ underscore # str_of_nat k \<and>
        length (next_candidate (sheet_base name0) k) \<le> 31)"
proof -
  from sanitize_collision [OF assms] obtain k where k: "1 \<le> k"
      "fst (sanitize_sheet_name name0 used) = next_candidate (sheet_base name0) k"
      "\<forall>i. 1 \<le> i \<and> i < k \<longrightarrow> next_candidate (sheet_base name0) i |\<in>| used"
      "k \<le> fcard used + 1"
    by blast
  have unused: "next_candidate (sheet_base name0) k |\<notin>| used"
    using unique_loop_unused [of "sheet_base name0" used "sheet_base name0" 1] k(2)
    by (simp add: sanitize_sheet_name_def Let_def)
  have ends: "endswith (next_candidate (sheet_base name0) k) (underscore # str_of_nat k)"
    by (simp add: endswith_def next_candidate_def sheet_suffix_def Let_def)
  have "fcard used + 1 < 10 ^ 30 \<longrightarrow>
        next_candidate (sheet_base name0) k
          = take (31 - length (underscore # str_of_nat k)) (sheet_base name0)
            @ underscore # str_of_nat k \<and>
        length (next_candidate (sheet_base name0) k) \<le> 31"
  proof
    assume "fcard used + 1 < 10 ^ 30"
    with k(4) have "k < 10 ^ 30" by simp
    from next_candidate_fits [OF this, of "sheet_base name0"]
    show "next_candidate (sheet_base name0) k
          = take (31 - length (underscore # str_of_nat k)) (sheet_base name0)
            @ underscore # str_of_nat k \<and>
        length (next_candidate (sheet_base name0) k) \<le> 31"
      by (simp add: sheet_suffix_def)
  qed
  with k unused ends show ?thesis by blast
qed

lemma sheet_base_a: "sheet_base (ustr ''a.csv'') = ustr ''a''"
  by (simp add: sheet_base_def clean_name_def ustr_def splitext_root_def splitext_scan.simps slice_to_def
      slice_from_def sep_def extsep_def ILLEGAL_SHEET_CHARS_def underscore_def strip_def
      isspace_def MAX_SHEET_LEN_def)

theorem collision_resolved_by_suffix_witness:
  "sheet_base (ustr ''a.csv'') |\<in>| {|ustr ''a'', ustr ''a_1''|} \<and>
   fcard {|ustr ''a'', ustr ''a_1''|} + 1 < 10 ^ 30 \<and>
   (\<exists>k\<ge>1.
      fst (sanitize_sheet_name (ustr ''a.csv'') {|ustr ''a'', ustr ''a_1''|})
        = next_candidate (sheet_base (ustr ''a.csv'')) k \<and>
      length (next_candidate (sheet_base (ustr ''a.csv'')) k) \<le> 31)"
proof -
  have h: "sheet_base (ustr ''a.csv'') |\<in>| {|ustr ''a'', ustr ''a_1''|}"
    by (simp add: sheet_base_a)
  have c: "fcard {|ustr ''a'', ustr ''a_1''|} + 1 < 10 ^ 30"
    by (simp add: fcard_finsert_if fcard_fempty ustr_def)
  from collision_resolved_by_suffix [OF h] c h show ?thesis by blast
qed

subsection \<open>The extension\<close>

lemma rfind_lower: "- 1 \<le> rfind xs c"
  by (induction xs) (auto simp: Let_def)

lemma rfind_notin: "c \<notin> set xs \<Longrightarrow> rfind xs c = - 1"
  by (induction xs) (auto simp: Let_def)

lemma rfind_in: "c \<in> set xs \<Longrightarrow> 0 \<le> rfind xs c"
  by (induction xs) (auto simp: Let_def)

lemma rfind_append_notin: "c \<notin> set ys \<Longrightarrow> rfind (xs @ ys) c = rfind xs c"
  by (induction xs) (auto simp: Let_def rfind_notin)

lemma rfind_last: "c \<notin> set ys \<Longrightarrow> rfind (xs @ c # ys) c = int (length xs)"
  by (induction xs) (auto simp: Let_def rfind_notin)

lemma rfind_split:
  "rfind xs c = int n \<Longrightarrow> \<exists>pre post. xs = pre @ c # post \<and> length pre = n \<and> c \<notin> set post"
proof (induction xs arbitrary: n)
  case Nil
  then show ?case by simp
next
  case (Cons x xs)
  show ?case
  proof (cases "0 \<le> rfind xs c")
    case True
    with Cons.prems have "rfind xs c = int (n - 1)" and n: "0 < n"
      by (auto simp: Let_def)
    from Cons.IH [OF this(1)] obtain pre post
      where "xs = pre @ c # post" "length pre = n - 1" "c \<notin> set post" by blast
    with n have "x # xs = (x # pre) @ c # post \<and> length (x # pre) = n \<and> c \<notin> set post"
      by simp
    then show ?thesis by blast
  next
    case False
    with Cons.prems have "x = c" and "n = 0"
      by (auto simp: Let_def split: if_splits)
    moreover from False have "c \<notin> set xs" using rfind_in [of c xs] by auto
    ultimately have "x # xs = [] @ c # xs \<and> length ([] :: 'a list) = n \<and> c \<notin> set xs" by simp
    then show ?thesis by blast
  qed
qed

lemma splitext_scan_iff:
  "splitext_scan p i d \<longleftrightarrow> (\<exists>j. i \<le> j \<and> j < d \<and> take 1 (drop j p) \<noteq> [extsep])"
proof (induction p i d rule: splitext_scan.induct)
  case (1 p i d)
  show ?case
  proof (cases "i < d")
    case False
    then show ?thesis by (simp add: splitext_scan.simps [of p i d])
  next
    case True
    show ?thesis
    proof (cases "take 1 (drop i p) \<noteq> [extsep]")
      case ne: True
      with True have "splitext_scan p i d"
        by (simp add: splitext_scan.simps [of p i d] slice_to_def slice_from_def)
      moreover from True ne have "\<exists>j. i \<le> j \<and> j < d \<and> take 1 (drop j p) \<noteq> [extsep]"
        by blast
      ultimately show ?thesis by simp
    next
      case eq: False
      with True have "splitext_scan p i d \<longleftrightarrow> splitext_scan p (i + 1) d"
        by (simp add: splitext_scan.simps [of p i d] slice_to_def slice_from_def)
      also have "\<dots> \<longleftrightarrow> (\<exists>j. i + 1 \<le> j \<and> j < d \<and> take 1 (drop j p) \<noteq> [extsep])"
        using "1.IH" True eq by (simp add: slice_to_def slice_from_def)
      also have "\<dots> \<longleftrightarrow> (\<exists>j. i \<le> j \<and> j < d \<and> take 1 (drop j p) \<noteq> [extsep])"
      proof
        assume "\<exists>j. i + 1 \<le> j \<and> j < d \<and> take 1 (drop j p) \<noteq> [extsep]"
        then obtain j where "i + 1 \<le> j" "j < d" "take 1 (drop j p) \<noteq> [extsep]" by blast
        then have "i \<le> j \<and> j < d \<and> take 1 (drop j p) \<noteq> [extsep]" by simp
        then show "\<exists>j. i \<le> j \<and> j < d \<and> take 1 (drop j p) \<noteq> [extsep]" ..
      next
        assume "\<exists>j. i \<le> j \<and> j < d \<and> take 1 (drop j p) \<noteq> [extsep]"
        then obtain j where j: "i \<le> j" "j < d" "take 1 (drop j p) \<noteq> [extsep]" by blast
        with eq have "j \<noteq> i" by auto
        with j have "i + 1 \<le> j \<and> j < d \<and> take 1 (drop j p) \<noteq> [extsep]" by simp
        then show "\<exists>j. i + 1 \<le> j \<and> j < d \<and> take 1 (drop j p) \<noteq> [extsep]" ..
      qed
      finally show ?thesis .
    qed
  qed
qed

lemma take1_drop: "j < length p \<Longrightarrow> take (Suc 0) (drop j p) = [p ! j]"
  by (simp add: Cons_nth_drop_Suc [symmetric])

lemma in_set_drop_iff:
  "x \<in> set (drop n l) \<longleftrightarrow> (\<exists>j. n \<le> j \<and> j < length l \<and> l ! j = x)"
proof
  assume "x \<in> set (drop n l)"
  then obtain i where i: "i < length l - n" "drop n l ! i = x"
    by (auto simp: in_set_conv_nth)
  then have "n \<le> n + i \<and> n + i < length l \<and> l ! (n + i) = x" by auto
  then show "\<exists>j. n \<le> j \<and> j < length l \<and> l ! j = x" ..
next
  assume "\<exists>j. n \<le> j \<and> j < length l \<and> l ! j = x"
  then obtain j where j: "n \<le> j" "j < length l" "l ! j = x" by blast
  then have "j - n < length (drop n l) \<and> drop n l ! (j - n) = x" by auto
  then show "x \<in> set (drop n l)" by (auto simp: in_set_conv_nth)
qed

lemma in_basename_iff:
  "c \<in> set (basename s) \<longleftrightarrow> (\<exists>j. nat (rfind s sep + 1) \<le> j \<and> j < length s \<and> s ! j = c)"
  by (simp add: basename_def slice_from_def in_set_drop_iff)

lemma splitext_root_removes:
  assumes ext: "extsep \<notin> set ext" "sep \<notin> set ext"
    and stem: "\<exists>c \<in> set (basename stem). c \<noteq> extsep"
  shows "splitext_root (stem @ extsep # ext) = stem"
proof -
  let ?p = "stem @ extsep # ext"
  have dot: "rfind ?p extsep = int (length stem)" using ext(1) by (rule rfind_last)
  have "sep \<notin> set (extsep # ext)" using ext(2) by (simp add: sep_def extsep_def)
  then have sl: "rfind ?p sep = rfind stem sep" by (rule rfind_append_notin)
  from stem obtain j where j: "nat (rfind stem sep + 1) \<le> j" "j < length stem" "stem ! j \<noteq> extsep"
    by (auto simp: in_basename_iff)
  then have "take 1 (drop j ?p) \<noteq> [extsep]"
    by (simp add: take1_drop nth_append)
  with j have scan: "splitext_scan ?p (nat (rfind stem sep + 1)) (length stem)"
    unfolding splitext_scan_iff by blast
  from j have "rfind stem sep < int (length stem)" by linarith
  with dot sl scan show ?thesis
    by (simp add: splitext_root_def Let_def slice_to_def)
qed

lemma splitext_root_cases:
  "splitext_root p = p \<or>
   (\<exists>stem ext. p = stem @ extsep # ext \<and> extsep \<notin> set ext \<and> sep \<notin> set ext \<and>
      (\<exists>c \<in> set (basename stem). c \<noteq> extsep) \<and> splitext_root p = stem)"
proof (cases "rfind p extsep > rfind p sep \<and>
    splitext_scan p (nat (rfind p sep + 1)) (nat (rfind p extsep))")
  case False
  then show ?thesis by (auto simp: splitext_root_def Let_def)
next
  case True
  then have "0 \<le> rfind p extsep" using rfind_lower [of p sep] by linarith
  then obtain n where n: "rfind p extsep = int n" using nonneg_int_cases by blast
  from rfind_split [OF this] obtain stem ext
    where p: "p = stem @ extsep # ext" "length stem = n" "extsep \<notin> set ext" by blast
  have nosep: "sep \<notin> set ext"
  proof
    assume "sep \<in> set ext"
    then obtain a b where "ext = a @ sep # b" "sep \<notin> set b"
      by (meson split_list_last)
    then have "rfind ((stem @ extsep # a) @ sep # b) sep = int (length (stem @ extsep # a))"
      by (intro rfind_last)
    with \<open>ext = a @ sep # b\<close> p have "rfind p sep > int n" by simp
    with True n show False by simp
  qed
  then have "sep \<notin> set (extsep # ext)" by (simp add: sep_def extsep_def)
  then have sl: "rfind p sep = rfind stem sep" unfolding p(1) by (rule rfind_append_notin)
  from True n obtain j where j: "nat (rfind p sep + 1) \<le> j" "j < n" "take 1 (drop j p) \<noteq> [extsep]"
    unfolding splitext_scan_iff by auto
  with p have "stem ! j \<noteq> extsep" by (simp add: take1_drop nth_append)
  with j sl p have "nat (rfind stem sep + 1) \<le> j \<and> j < length stem \<and> stem ! j = stem ! j"
    by simp
  then have "stem ! j \<in> set (basename stem)" unfolding in_basename_iff ..
  with \<open>stem ! j \<noteq> extsep\<close> have "\<exists>c \<in> set (basename stem). c \<noteq> extsep" ..
  moreover from this p(3) nosep have "splitext_root (stem @ extsep # ext) = stem"
    by (intro splitext_root_removes)
  ultimately show ?thesis using p nosep by blast
qed

lemma splitext_dotfile: "splitext_root (ustr ''.csv'') = ustr ''.csv''"
  by (simp add: ustr_def splitext_root_def splitext_scan.simps sep_def extsep_def)

lemma splitext_two_levels: "splitext_root (ustr ''name.backup.csv'') = ustr ''name.backup''"
  by (simp add: ustr_def splitext_root_def splitext_scan.simps sep_def extsep_def slice_to_def
      slice_from_def)

text \<open>
  C8, as the code has it. The sanitizer goes on with \<^verbatim>\<open>os.path.splitext(name)[0]\<close>. When the
  name is \<open>stem.ext\<close>, where \<open>ext\<close> has neither a dot nor a slash and the last path segment
  of \<open>stem\<close> has a character other than a dot, the last dot and \<open>ext\<close> are removed, and
  no more than that: \<^verbatim>\<open>name.backup.csv\<close> becomes \<^verbatim>\<open>name.backup\<close>. Every other name is
  left whole; so is a last path segment whose last dot has only dots before it.
\<close>

theorem extension_removed_one_level:
  "(extsep \<notin> set ext \<and> sep \<notin> set ext \<and> (\<exists>c \<in> set (basename stem). c \<noteq> extsep) \<longrightarrow>
      splitext_root (stem @ extsep # ext) = stem \<and>
      sheet_base (stem @ extsep # ext) = clean_name stem \<and>
      fst (sanitize_sheet_name (stem @ extsep # ext) used)
        = unique_loop (clean_name stem) used (clean_name stem) 1) \<and>
   (splitext_root p = p \<or>
      (\<exists>stem ext. p = stem @ extsep # ext \<and> extsep \<notin> set ext \<and> sep \<notin> set ext \<and>
         (\<exists>c \<in> set (basename stem). c \<noteq> extsep) \<and> splitext_root p = stem)) \<and>
   splitext_root (ustr ''name.backup.csv'') = ustr ''name.backup''"
  using splitext_root_removes [of ext stem] splitext_root_cases [of p] splitext_two_levels
  by (simp add: sheet_base_def sanitize_sheet_name_def Let_def)

theorem extension_removed_one_level_witness:
  "extsep \<notin> set (ustr ''csv'') \<and> sep \<notin> set (ustr ''csv'') \<and>
   (\<exists>c \<in> set (basename (ustr ''name.backup'')). c \<noteq> extsep) \<and>
   splitext_root (ustr ''name.backup'' @ extsep # ustr ''csv'') = ustr ''name.backup''"
  using extension_removed_one_level [of "ustr ''csv''" "ustr ''name.backup''"]
  by (simp add: ustr_def extsep_def sep_def basename_def slice_from_def)

text \<open>
  C8 as stated fails on a name that is only a dot and a suffix: \<^verbatim>\<open>.csv\<close> keeps its suffix,
  and the title is \<^verbatim>\<open>.csv\<close>.
\<close>

theorem dotfile_keeps_suffix:
  "splitext_root (ustr ''.csv'') = ustr ''.csv'' \<and>
   fst (sanitize_sheet_name (ustr ''.csv'') {||}) = ustr ''.csv''"
  by (simp add: sanitize_sheet_name_def Let_def sheet_base_def splitext_dotfile
      unique_loop.simps [of _ "{||}"])
    (simp add: clean_name_def ustr_def ILLEGAL_SHEET_CHARS_def strip_def isspace_def
      slice_to_def MAX_SHEET_LEN_def)

subsection \<open>The dialect sniffer\<close>

lemma Dialect_init_ok:
  "length (delimiter d) = 1 \<Longrightarrow> dialect_check E d = None \<Longrightarrow> Dialect_init E d = Inr d"
  by (simp add: Dialect_init_def)

text \<open>
  C4, as the code has it. When no override is supplied (\<^verbatim>\<open>None\<close> or the empty string), or the
  override is one character that the library accepts, the sniffer raises nothing and
  returns a dialect. Without an override every failure, of the decoding or of the sniffing,
  gives the default comma dialect.
\<close>

theorem sniff_never_raises_without_override:
  "(\<not> truthy provided \<or>
      (\<exists>v. provided = Some v \<and> length v = 1 \<and> dialect_check E (csv_excel\<lparr>delimiter := v\<rparr>) = None)
    \<longrightarrow> (\<exists>d. sniff_dialect E sample provided = Inr d)) \<and>
   (\<not> truthy provided \<and> (\<exists>e. decode_ignore E sample = Inl e)
    \<longrightarrow> sniff_dialect E sample provided = Inr csv_excel) \<and>
   (\<not> truthy provided \<and>
      (\<exists>t e. decode_ignore E sample = Inr t \<and> sniffer_sniff E t [[44], [59], [9], [124]] = Inl e)
    \<longrightarrow> sniff_dialect E sample provided = Inr csv_excel) \<and>
   delimiter csv_excel = ustr '',''"
  by (auto simp: sniff_dialect_def truthy_def Dialect_init_def csv_excel_def ustr_def
      split: sum.splits option.splits)

theorem sniff_never_raises_without_override_witness:
  "\<not> truthy None \<and>
   (\<exists>t e. decode_ignore example_env [97, 98] = Inr t \<and>
      sniffer_sniff example_env t [[44], [59], [9], [124]] = Inl e) \<and>
   sniff_dialect example_env [97, 98] None = Inr csv_excel"
  using sniff_never_raises_without_override [of None example_env "[97, 98]"]
  by (simp add: truthy_def example_env_def)

text \<open>
  C4 as stated fails for an override of two characters: building the dialect raises
  \<^verbatim>\<open>csv.Error\<close>, outside the \<^verbatim>\<open>try\<close> block, and the caller receives it.
\<close>

theorem sniff_raises_on_long_override:
  "sniff_dialect example_env [97, 59, 98, 10] (Some (ustr '';;''))
     = Inl (csv_Error ([34] @ ustr ''delimiter'' @ [34] @ ustr '' must be a 1-character string''))"
  by (simp add: sniff_dialect_def truthy_def Dialect_init_def csv_excel_def ustr_def)

text \<open>
  C5, as the code has it. For every sample and every override of exactly one character that
  the library accepts, the result is the comma dialect with the delimiter replaced by the
  override. For every non-empty override the result depends neither on the sample nor on
  the decoder or the sniffer: no sniffing takes place.
\<close>

theorem override_honoured:
  "(length v = 1 \<and> dialect_check E (csv_excel\<lparr>delimiter := v\<rparr>) = None \<longrightarrow>
      sniff_dialect E sample (Some v) = Inr (csv_excel\<lparr>delimiter := v\<rparr>) \<and>
      (\<forall>d. sniff_dialect E sample (Some v) = Inr d \<longrightarrow> delimiter d = v)) \<and>
   (v \<noteq> [] \<longrightarrow>
      sniff_dialect (E\<lparr>decode_ignore := dec, sniffer_sniff := sn\<rparr>) sample' (Some v)
        = sniff_dialect E sample (Some v))"
  by (simp add: sniff_dialect_def truthy_def Dialect_init_def)

theorem override_honoured_witness:
  "length (ustr '';'') = 1 \<and> ustr '';'' \<noteq> [] \<and>
   dialect_check example_env (csv_excel\<lparr>delimiter := ustr '';''\<rparr>) = None \<and>
   sniff_dialect example_env [97, 44, 98, 10] (Some (ustr '';''))
     = Inr (csv_excel\<lparr>delimiter := ustr '';''\<rparr>)"
  using override_honoured [of "ustr '';''" example_env "[97, 44, 98, 10]"]
  by (simp add: ustr_def example_env_def)

text \<open>
  C5 as stated fails for the override \<^verbatim>\<open>ab\<close>: no dialect is returned, \<^verbatim>\<open>csv.Error\<close> is raised.
\<close>

theorem override_of_two_characters_raises:
  "sniff_dialect example_env [97, 44, 98, 10] (Some (ustr ''ab''))
     = Inl (csv_Error ([34] @ ustr ''delimiter'' @ [34] @ ustr '' must be a 1-character string''))"
  by (simp add: sniff_dialect_def truthy_def Dialect_init_def csv_excel_def ustr_def)

subsection \<open>The file discoverer\<close>

lemma nat_int_Suc: "nat (int n + 1) = Suc n"
  by simp

lemma basename_join: "sep \<notin> set fn \<Longrightarrow> basename (join d fn) = fn"
proof -
  assume fn: "sep \<notin> set fn"
  then have nostart: "\<not> startswith fn [sep]"
    by (cases fn) (auto simp: startswith_def)
  show ?thesis
  proof (cases "d = [] \<or> endswith d [sep]")
    case False
    then have "join d fn = d @ sep # fn" using nostart by (simp add: join_def)
    then show ?thesis using fn by (simp add: basename_def slice_from_def rfind_last nat_int_Suc)
  next
    case True
    then have j: "join d fn = d @ fn" using nostart by (simp add: join_def)
    from True show ?thesis
    proof
      assume "d = []"
      with j fn show ?thesis by (simp add: basename_def slice_from_def rfind_notin)
    next
      assume "endswith d [sep]"
      then obtain d' where "d = d' @ [sep]"
        by (cases d rule: rev_cases) (auto simp: endswith_def)
      with j fn show ?thesis by (simp add: basename_def slice_from_def rfind_last nat_int_Suc)
    qed
  qed
qed

lemma lower_ascii: "list_all (\<lambda>c. c < 128) s \<Longrightarrow> lower E s = map ascii_lower s"
  by (simp add: lower_def)

lemma lower_B: "lower E (ustr ''B.csv'') = ustr ''b.csv''"
  by (simp add: lower_def ustr_def ascii_lower_def)
lemma lower_a: "lower E (ustr ''a.csv'') = ustr ''a.csv''"
  by (simp add: lower_def ustr_def ascii_lower_def)
lemma lower_C: "lower E (ustr ''C.CSV'') = ustr ''c.csv''"
  by (simp add: lower_def ustr_def ascii_lower_def)

lemma three_files_order:
  assumes "mset names = mset [ustr ''B.csv'', ustr ''a.csv'', ustr ''C.CSV'']"
  shows "sort_key (\<lambda>p. lower E (basename p)) (map (join d) (filter (is_csv E) names))
    = [join d (ustr ''a.csv''), join d (ustr ''B.csv''), join d (ustr ''C.CSV'')]"
proof -
  let ?B = "ustr ''B.csv''" and ?a = "ustr ''a.csv''" and ?C = "ustr ''C.CSV''"
  let ?f = "\<lambda>p. lower E (basename p)"
  have nosep: "sep \<notin> set ?B" "sep \<notin> set ?a" "sep \<notin> set ?C"
    by (simp_all add: ustr_def sep_def)
  have keys: "?f (join d ?B) = ustr ''b.csv''" "?f (join d ?a) = ustr ''a.csv''"
    "?f (join d ?C) = ustr ''c.csv''"
    by (simp_all add: basename_join nosep lower_B lower_a lower_C)
  have csv: "is_csv E ?B" "is_csv E ?a" "is_csv E ?C"
    by (simp_all add: is_csv_def lower_B lower_a lower_C) (simp_all add: endswith_def ustr_def)
  have names: "set names = {?B, ?a, ?C}" using mset_eq_setD [OF assms] by simp
  then have "\<forall>x \<in> set names. is_csv E x" using csv by simp
  then have all: "filter (is_csv E) names = names" by (simp add: filter_id_conv)
  have "mset (map (join d) names) = image_mset (join d) (mset names)" by simp
  also have "\<dots> = mset [join d ?a, join d ?B, join d ?C]"
    unfolding assms by simp
  finally have m: "mset (map (join d) (filter (is_csv E) names))
      = mset [join d ?a, join d ?B, join d ?C]"
    using all by simp
  have "set (map (join d) (filter (is_csv E) names)) = {join d ?a, join d ?B, join d ?C}"
    using mset_eq_setD [OF m] by simp
  moreover have "inj_on ?f {join d ?a, join d ?B, join d ?C}"
  proof (rule inj_onI)
    fix x y
    assume "x \<in> {join d ?a, join d ?B, join d ?C}" "y \<in> {join d ?a, join d ?B, join d ?C}"
      and "?f x = ?f y"
    then show "x = y" by (auto simp: keys) (simp_all add: ustr_def)
  qed
  ultimately have inj: "inj_on ?f (set (map (join d) (filter (is_csv E) names)))"
    by simp
  have srt: "sorted (map ?f [join d ?a, join d ?B, join d ?C])"
    by (simp add: keys) (simp add: ustr_def)
  from m inj srt show ?thesis by (rule sort_key_inj_key_eq)
qed

lemma find_example:

  "find_csv_files example_env (ustr ''data'') False
    = Inr [ustr ''data/a.csv'', ustr ''data/B.csv'', ustr ''data/C.CSV'']"
  by (simp add: find_csv_files_def example_env_def is_csv_def lower_def ascii_lower_def
      endswith_def join_def startswith_def basename_def slice_from_def ustr_def sep_def)

lemma find_example_rec:
  "find_csv_files example_env (ustr ''data'') True
    = Inr [ustr ''data/x/t.csv'', ustr ''data/y/t.csv'']"
  by (simp add: find_csv_files_def example_env_def is_csv_def lower_def ascii_lower_def
      endswith_def join_def startswith_def basename_def slice_from_def ustr_def sep_def)

text \<open>
  C6. When the directory can be listed, the discoverer returns the joined paths of exactly
  the listed names whose lower-cased form ends with \<^verbatim>\<open>.csv\<close> (in recursive mode: of the file
  names of every directory that the walk yields), sorted ascending by the lower-cased
  base name. For the children \<^verbatim>\<open>B.csv\<close>, \<^verbatim>\<open>a.csv\<close>, \<^verbatim>\<open>C.CSV\<close>, listed in any order, the result is
  \<^verbatim>\<open>a.csv\<close>, \<^verbatim>\<open>B.csv\<close>, \<^verbatim>\<open>C.CSV\<close>.
\<close>

theorem discovery_filtered_and_sorted:
  "(listdir E input_dir = Inr names \<longrightarrow>
      (\<exists>files. find_csv_files E input_dir False = Inr files \<and>
         mset files = mset (map (join input_dir)
           (filter (\<lambda>fn. endswith (lower E fn) (ustr ''.csv'')) names)) \<and>
         sorted (map (\<lambda>p. lower E (basename p)) files))) \<and>
   (\<exists>files. find_csv_files E input_dir True = Inr files \<and>
      mset files = mset (concat (map (\<lambda>(root, dirnames, filenames).
        map (join root) (filter (\<lambda>fn. endswith (lower E fn) (ustr ''.csv'')) filenames))
        (walk E input_dir))) \<and>
      sorted (map (\<lambda>p. lower E (basename p)) files)) \<and>
   (listdir E input_dir = Inr names \<and>
    mset names = mset [ustr ''B.csv'', ustr ''a.csv'', ustr ''C.CSV''] \<longrightarrow>
      find_csv_files E input_dir False
        = Inr [join input_dir (ustr ''a.csv''), join input_dir (ustr ''B.csv''),
               join input_dir (ustr ''C.CSV'')])"
proof (intro conjI impI)
  assume "listdir E input_dir = Inr names"
  then show "\<exists>files. find_csv_files E input_dir False = Inr files \<and>
         mset files = mset (map (join input_dir)
           (filter (\<lambda>fn. endswith (lower E fn) (ustr ''.csv'')) names)) \<and>
         sorted (map (\<lambda>p. lower E (basename p)) files)"
    by (simp add: find_csv_files_def is_csv_def [abs_def])
next
  have "is_csv E = (\<lambda>fn. endswith (lower E fn) (ustr ''.csv''))"
    by (simp add: is_csv_def [abs_def])
  then show "\<exists>files. find_csv_files E input_dir True = Inr files \<and>
      mset files = mset (concat (map (\<lambda>(root, dirnames, filenames).
        map (join root) (filter (\<lambda>fn. endswith (lower E fn) (ustr ''.csv'')) filenames))
        (walk E input_dir))) \<and>
      sorted (map (\<lambda>p. lower E (basename p)) files)"
    by (simp add: find_csv_files_def del: mset_concat mset_map)
next
  assume "listdir E input_dir = Inr names \<and>
    mset names = mset [ustr ''B.csv'', ustr ''a.csv'', ustr ''C.CSV'']"
  then show "find_csv_files E input_dir False
        = Inr [join input_dir (ustr ''a.csv''), join input_dir (ustr ''B.csv''),
               join input_dir (ustr ''C.CSV'')]"
    by (simp add: find_csv_files_def three_files_order)
qed

theorem discovery_filtered_and_sorted_witness:
  "listdir (example_env\<lparr>listdir := \<lambda>d. Inr [ustr ''B.csv'', ustr ''a.csv'', ustr ''C.CSV'']\<rparr>)
      (ustr ''data'') = Inr [ustr ''B.csv'', ustr ''a.csv'', ustr ''C.CSV''] \<and>
   find_csv_files (example_env\<lparr>listdir := \<lambda>d. Inr [ustr ''B.csv'', ustr ''a.csv'', ustr ''C.CSV'']\<rparr>)
      (ustr ''data'') False
    = Inr [ustr ''data/a.csv'', ustr ''data/B.csv'', ustr ''data/C.CSV'']"
  using discovery_filtered_and_sorted
    [of "example_env\<lparr>listdir := \<lambda>d. Inr [ustr ''B.csv'', ustr ''a.csv'', ustr ''C.CSV'']\<rparr>"
        "ustr ''data''" "[ustr ''B.csv'', ustr ''a.csv'', ustr ''C.CSV'']"]
  by (simp add: join_def startswith_def endswith_def ustr_def sep_def)

subsection \<open>The workbook builder\<close>

lemma append_rows_fst:
  "fst (append_rows E rs acc) = acc @ takeWhile (\<lambda>r. ws_append E r = None) rs"
  by (induction rs arbitrary: acc) (auto split: option.splits)

lemma process_file_rows:
  "sheets (process_file E enc d v p st) = sheets st @
     [\<lparr>title = fst (sanitize_sheet_name (basename p) (used_names st)),
       rows = takeWhile (\<lambda>r. ws_append E r = None)
                (fst (run_generator E (read_csv_rows p enc d)))\<rparr>]"
  by (simp add: process_file_sheets append_rows_fst)

lemma build_sheets_sheets:
  "sheets (build_sheets E enc d v files st) = sheets st @
     map2 (\<lambda>p t. \<lparr>title = t,
                  rows = takeWhile (\<lambda>r. ws_append E r = None)
                           (fst (run_generator E (read_csv_rows p enc d)))\<rparr>)
       files (sanitize_all (map basename files) (used_names st))"
  by (induction files arbitrary: st) (simp_all add: process_file_rows process_file_used)

lemma length_sanitize_all: "length (sanitize_all names used) = length names"
  by (induction names arbitrary: used) simp_all

lemma build_sheets_length:
  "length (sheets (build_sheets E enc d v files st)) = length (sheets st) + length files"
  by (simp add: build_sheets_sheets length_sanitize_all)

lemma build_sheets_rows:
  assumes "i < length files"
  shows "rows (sheets (build_sheets E enc d v files initial_state) ! i)
    = takeWhile (\<lambda>r. ws_append E r = None)
        (fst (run_generator E (read_csv_rows (files ! i) enc d)))"
  using assms by (simp add: build_sheets_sheets initial_state_def length_sanitize_all)

lemma combine_succeeds:
  assumes "find_csv_files E input_dir r = Inr files" "files \<noteq> []"
    and "makedirs E (if dirname (abspath E out) = [] then ustr ''.''
                     else dirname (abspath E out)) = None"
    and "wb_save E out (sheets (build_sheets E enc d v files initial_state)) = None"
  shows "\<exists>st. combine_csvs_to_excel E input_dir out enc d r v = Inr st \<and>
           sheets st = sheets (build_sheets E enc d v files initial_state)"
  using assms by (simp add: combine_csvs_to_excel_def Let_def)

lemma sheet_base_recorded: "sheet_base name0 |\<in>| snd (sanitize_sheet_name name0 used)"
  using sanitize_cases [of name0 used] by (auto simp: sanitize_adds)

lemma sanitize_all_collision:
  "j < length names \<Longrightarrow>
   sheet_base (names ! j) |\<in>| used \<or> (\<exists>i<j. sheet_base (names ! i) = sheet_base (names ! j)) \<Longrightarrow>
   \<exists>k\<ge>1. sanitize_all names used ! j = next_candidate (sheet_base (names ! j)) k"
proof (induction names arbitrary: used j)
  case Nil
  then show ?case by simp
next
  case (Cons n names)
  show ?case
  proof (cases j)
    case 0
    with Cons.prems have "sheet_base n |\<in>| used" by simp
    from sanitize_collision [OF this] 0 show ?thesis by auto
  next
    case (Suc j')
    let ?used' = "snd (sanitize_sheet_name n used)"
    from Cons.prems Suc have j': "j' < length names" by simp
    have "sheet_base (names ! j') |\<in>| ?used' \<or>
        (\<exists>i<j'. sheet_base (names ! i) = sheet_base (names ! j'))"
      using Cons.prems(2)
    proof
      assume "sheet_base ((n # names) ! j) |\<in>| used"
      then show ?thesis using Suc by (simp add: sanitize_adds)
    next
      assume "\<exists>i<j. sheet_base ((n # names) ! i) = sheet_base ((n # names) ! j)"
      then obtain i where i: "i < j" "sheet_base ((n # names) ! i) = sheet_base ((n # names) ! j)"
        by blast
      show ?thesis
      proof (cases i)
        case 0
        with i Suc have "sheet_base n = sheet_base (names ! j')" by simp
        then show ?thesis using sheet_base_recorded [of n used] by simp
      next
        case (Suc i')
        with i \<open>j = Suc j'\<close> have "i' < j' \<and> sheet_base (names ! i') = sheet_base (names ! j')"
          by simp
        then show ?thesis by blast
      qed
    qed
    from Cons.IH [OF j' this] Suc show ?thesis by simp
  qed
qed

subsection \<open>The example run\<close>

lemmas name_eval =
  sanitize_sheet_name_def sheet_base_def clean_name_def splitext_root_def splitext_scan.simps
  unique_loop.simps next_candidate_def sheet_suffix_def str_of_nat.simps
  slice_to_def slice_from_def strip_def isspace_def ILLEGAL_SHEET_CHARS_def MAX_SHEET_LEN_def
  basename_def ustr_def sep_def extsep_def underscore_def Let_def

lemma example_title_a: "sanitize_sheet_name (basename (ustr ''data/a.csv'')) {||} = (ustr ''a'', {|ustr ''a''|})"
  by (simp add: name_eval)

lemma example_titles_t: "sanitize_all [basename (ustr ''data/x/t.csv''), basename (ustr ''data/y/t.csv'')] {||}
   = [ustr ''t'', ustr ''t_1'']"
  by (simp add: name_eval)

lemma example_titles_abc: "sanitize_all [basename (ustr ''data/a.csv''), basename (ustr ''data/B.csv''),
    basename (ustr ''data/C.CSV'')] {||}
   = [ustr ''a'', ustr ''B'', ustr ''C'']"
  by (simp add: name_eval)

lemma example_read_a: "run_generator example_env (read_csv_rows (ustr ''data/a.csv'') enc None)
   = ([[ustr ''k'', ustr ''v''], [ustr ''1'', ustr ''2'']], None,
      [Opened (ustr ''data/a.csv''), Opened (ustr ''data/a.csv'')])"
  by (simp add: read_csv_rows_def example_env_def sniff_dialect_def truthy_def ustr_def)

lemma example_read_B: "run_generator example_env (read_csv_rows (ustr ''data/B.csv'') enc None)
   = ([], Some (OtherError (ustr ''Permission denied'')), [Opened (ustr ''data/B.csv'')])"
  by (simp add: read_csv_rows_def example_env_def sniff_dialect_def truthy_def ustr_def)

lemma example_read_C: "run_generator example_env (read_csv_rows (ustr ''data/C.CSV'') enc None)
   = ([[ustr ''k'', ustr ''v'']], Some (csv_Error (ustr ''line contains NUL'')),
      [Opened (ustr ''data/C.CSV''), Opened (ustr ''data/C.CSV'')])"
  by (simp add: read_csv_rows_def example_env_def sniff_dialect_def truthy_def ustr_def)

lemma example_io_ok: "ws_append example_env r = None" "makedirs example_env x = None"
  "wb_save example_env out wb = None"
  by (simp_all add: example_env_def)

lemma example_sheets: "sheets (build_sheets example_env enc None v
      [ustr ''data/a.csv'', ustr ''data/B.csv'', ustr ''data/C.CSV''] initial_state)
   = [\<lparr>title = ustr ''a'', rows = [[ustr ''k'', ustr ''v''], [ustr ''1'', ustr ''2'']]\<rparr>,
      \<lparr>title = ustr ''B'', rows = []\<rparr>,
      \<lparr>title = ustr ''C'', rows = [[ustr ''k'', ustr ''v'']]\<rparr>]"
  by (subst build_sheets_sheets)
    (simp add: initial_state_def example_titles_abc example_read_a example_read_B example_read_C example_io_ok del: sanitize_all.simps)

subsection \<open>Errors of one file\<close>

text \<open>
  C3. When the reading of a file raises an error, its worksheet stays in the workbook,
  with the rows appended before the error, and the loop goes on with the next file. For
  every list of files, each file has its worksheet, holding the rows that were read and
  appended before the first failure for that file, whatever happened to the other files.
  The run returns normally whenever the discovery finds a file and the output can be
  written: no error of the reading makes it fail.
\<close>

theorem per_file_errors_contained:
  "(fst (snd (run_generator E (read_csv_rows p enc d))) = Some e \<longrightarrow>
      sheets (process_file E enc d v p st) = sheets st @
        [\<lparr>title = fst (sanitize_sheet_name (basename p) (used_names st)),
          rows = takeWhile (\<lambda>r. ws_append E r = None)
                   (fst (run_generator E (read_csv_rows p enc d)))\<rparr>] \<and>
      build_sheets E enc d v (p # ps) st
        = build_sheets E enc d v ps (process_file E enc d v p st)) \<and>
   length (sheets (build_sheets E enc d v files initial_state)) = length files \<and>
   (i < length files \<longrightarrow>
      rows (sheets (build_sheets E enc d v files initial_state) ! i)
        = takeWhile (\<lambda>r. ws_append E r = None)
            (fst (run_generator E (read_csv_rows (files ! i) enc d)))) \<and>
   (find_csv_files E input_dir r = Inr files \<and> files \<noteq> [] \<and>
    makedirs E (if dirname (abspath E out) = [] then ustr ''.''
                else dirname (abspath E out)) = None \<and>
    wb_save E out (sheets (build_sheets E enc d v files initial_state)) = None \<longrightarrow>
      (\<exists>st'. combine_csvs_to_excel E input_dir out enc d r v = Inr st' \<and>
         sheets st' = sheets (build_sheets E enc d v files initial_state)))"
  using combine_succeeds [of E input_dir r files out enc d v]
    build_sheets_rows [of i files E enc d v]
  by (simp add: process_file_rows build_sheets_length initial_state_def)

theorem per_file_errors_contained_witness:
  "fst (snd (run_generator example_env (read_csv_rows (ustr ''data/B.csv'') (ustr ''utf-8-sig'') None)))
     = Some (OtherError (ustr ''Permission denied'')) \<and>
   find_csv_files example_env (ustr ''data'') False
     = Inr [ustr ''data/a.csv'', ustr ''data/B.csv'', ustr ''data/C.CSV''] \<and>
   (1::nat) < length [ustr ''data/a.csv'', ustr ''data/B.csv'', ustr ''data/C.CSV''] \<and>
   (\<exists>st'. combine_csvs_to_excel example_env (ustr ''data'') (ustr ''out.xlsx'') (ustr ''utf-8-sig'') None False True
            = Inr st' \<and>
      sheets st' =
        [\<lparr>title = ustr ''a'', rows = [[ustr ''k'', ustr ''v''], [ustr ''1'', ustr ''2'']]\<rparr>,
         \<lparr>title = ustr ''B'', rows = []\<rparr>,
         \<lparr>title = ustr ''C'', rows = [[ustr ''k'', ustr ''v'']]\<rparr>])"
  using per_file_errors_contained [of example_env "ustr ''data/B.csv''" "ustr ''utf-8-sig''" None
      "OtherError (ustr ''Permission denied'')" True initial_state "[]"
      "[ustr ''data/a.csv'', ustr ''data/B.csv'', ustr ''data/C.CSV'']" 1
      "ustr ''data''" False "ustr ''out.xlsx''"]
  by (simp add: example_read_B example_io_ok example_sheets find_example del: build_sheets.simps)

subsection \<open>Titles and directories\<close>

text \<open>
  C9. The titles of the worksheets are those of the base names of the files, sanitized in
  order against one set: two file lists with the same base names get the same titles,
  and the directory that a path was joined with has no influence. When two files of the
  list have the same base name, the title of the later one is a suffixed candidate: it
  ends with \<open>_k\<close> for a counter \<open>k \<ge> 1\<close>.
\<close>

theorem titles_from_base_names:
  "map title (sheets (build_sheets E enc d v files initial_state))
     = sanitize_all (map basename files) {||} \<and>
   (map basename files = map basename files' \<longrightarrow>
      map title (sheets (build_sheets E enc d v files initial_state))
        = map title (sheets (build_sheets E' enc' d' v' files' initial_state))) \<and>
   (sep \<notin> set fn \<longrightarrow>
      sanitize_sheet_name (basename (join root fn)) used = sanitize_sheet_name fn used) \<and>
   (i < j \<and> j < length files \<and> basename (files ! i) = basename (files ! j) \<longrightarrow>
      (\<exists>k\<ge>1. title (sheets (build_sheets E enc d v files initial_state) ! j)
                = next_candidate (sheet_base (basename (files ! j))) k \<and>
              endswith (title (sheets (build_sheets E enc d v files initial_state) ! j))
                (underscore # str_of_nat k)))"
proof (intro conjI impI)
  show t: "map title (sheets (build_sheets E enc d v files initial_state))
     = sanitize_all (map basename files) {||}" for E enc d v files
    by (simp add: build_sheets_titles initial_state_def)
  show "map title (sheets (build_sheets E enc d v files initial_state))
        = map title (sheets (build_sheets E' enc' d' v' files' initial_state))"
    if "map basename files = map basename files'"
    using that by (simp add: t)
  show "sanitize_sheet_name (basename (join root fn)) used = sanitize_sheet_name fn used"
    if "sep \<notin> set fn"
    using that by (simp add: basename_join)
  assume a: "i < j \<and> j < length files \<and> basename (files ! i) = basename (files ! j)"
  let ?names = "map basename files"
  from a have "j < length ?names"
    and "sheet_base (?names ! j) |\<in>| {||} \<or>
         (\<exists>i<j. sheet_base (?names ! i) = sheet_base (?names ! j))"
    by auto
  from sanitize_all_collision [OF this] obtain k where k: "1 \<le> k"
    "sanitize_all ?names {||} ! j = next_candidate (sheet_base (?names ! j)) k" by blast
  have len: "j < length (sheets (build_sheets E enc d v files initial_state))"
    using a by (simp add: build_sheets_length initial_state_def)
  have "title (sheets (build_sheets E enc d v files initial_state) ! j)
      = map title (sheets (build_sheets E enc d v files initial_state)) ! j"
    using len by simp
  also have "\<dots> = next_candidate (sheet_base (basename (files ! j))) k"
    using k a by (simp add: t)
  finally have eq: "title (sheets (build_sheets E enc d v files initial_state) ! j)
      = next_candidate (sheet_base (basename (files ! j))) k" .
  moreover have "endswith (next_candidate (sheet_base (basename (files ! j))) k)
      (underscore # str_of_nat k)"
    by (simp add: endswith_def next_candidate_def sheet_suffix_def Let_def)
  ultimately show "\<exists>k\<ge>1. title (sheets (build_sheets E enc d v files initial_state) ! j)
                = next_candidate (sheet_base (basename (files ! j))) k \<and>
              endswith (title (sheets (build_sheets E enc d v files initial_state) ! j))
                (underscore # str_of_nat k)"
    using k(1) by auto
qed

theorem titles_from_base_names_witness:
  "map basename [ustr ''data/x/t.csv'', ustr ''data/y/t.csv'']
     = map basename [ustr ''t.csv'', ustr ''other/t.csv''] \<and>
   sep \<notin> set (ustr ''t.csv'') \<and>
   (0::nat) < 1 \<and> 1 < length [ustr ''data/x/t.csv'', ustr ''data/y/t.csv''] \<and>
   basename ([ustr ''data/x/t.csv'', ustr ''data/y/t.csv''] ! 0)
     = basename ([ustr ''data/x/t.csv'', ustr ''data/y/t.csv''] ! 1) \<and>
   map title (sheets (build_sheets example_env (ustr ''utf-8-sig'') None True
       [ustr ''data/x/t.csv'', ustr ''data/y/t.csv''] initial_state))
     = [ustr ''t'', ustr ''t_1''] \<and>
   (\<exists>k\<ge>1. title (sheets (build_sheets example_env (ustr ''utf-8-sig'') None True
                [ustr ''data/x/t.csv'', ustr ''data/y/t.csv''] initial_state) ! 1)
             = next_candidate (sheet_base (basename (ustr ''data/y/t.csv''))) k)"
proof -
  have b: "basename (ustr ''data/x/t.csv'') = ustr ''t.csv''"
    "basename (ustr ''data/y/t.csv'') = ustr ''t.csv''"
    "basename (ustr ''other/t.csv'') = ustr ''t.csv''"
    "basename (ustr ''t.csv'') = ustr ''t.csv''"
    by (simp_all add: basename_def slice_from_def ustr_def sep_def)
  have s: "sep \<notin> set (ustr ''t.csv'')" by (simp add: ustr_def sep_def)
  let ?files = "[ustr ''data/x/t.csv'', ustr ''data/y/t.csv'']"
  note T = titles_from_base_names [of example_env "ustr ''utf-8-sig''" None True ?files
      "[ustr ''t.csv'', ustr ''other/t.csv'']"
      example_env "ustr ''utf-8-sig''" None True "ustr ''t.csv''" "ustr ''data/x''" "{||}" 0 1]
  from T have "map title (sheets (build_sheets example_env (ustr ''utf-8-sig'') None True ?files initial_state))
      = sanitize_all (map basename ?files) {||}" by blast
  then have t: "map title (sheets (build_sheets example_env (ustr ''utf-8-sig'') None True ?files initial_state))
      = [ustr ''t'', ustr ''t_1'']"
    using example_titles_t by (simp del: build_sheets.simps sanitize_all.simps)
  have h: "(0::nat) < 1 \<and> 1 < length ?files \<and> basename (?files ! 0) = basename (?files ! 1)"
    by (simp add: b)
  with T have "\<exists>k\<ge>1. title (sheets (build_sheets example_env (ustr ''utf-8-sig'') None True ?files initial_state) ! 1)
             = next_candidate (sheet_base (basename (?files ! 1))) k \<and>
           endswith (title (sheets (build_sheets example_env (ustr ''utf-8-sig'') None True ?files initial_state) ! 1))
             (underscore # str_of_nat k)"
    by blast
  then have "\<exists>k\<ge>1. title (sheets (build_sheets example_env (ustr ''utf-8-sig'') None True ?files initial_state) ! 1)
             = next_candidate (sheet_base (basename (ustr ''data/y/t.csv''))) k"
    by (simp del: build_sheets.simps) blast
  with t h s show ?thesis by (simp add: b del: build_sheets.simps)
qed

subsection \<open>A file that cannot be opened\<close>

lemma process_file_unopenable:
  assumes "open_rb E p = Inl e"
  shows "process_file E enc d v p st =
        \<lparr>sheets = sheets st @
           [\<lparr>title = fst (sanitize_sheet_name (basename p) (used_names st)), rows = []\<rparr>],
         used_names = snd (sanitize_sheet_name (basename p) (used_names st)),
         events = events st @
           [SheetCreated (fst (sanitize_sheet_name (basename p) (used_names st)))] @
           (if v then [Printed (ustr ''Adding sheet: ''
                         @ fst (sanitize_sheet_name (basename p) (used_names st))
                         @ ustr '' from '' @ p)]
            else []) @
           [Opened p] @
           (if v then [Printed (ustr ''Warning: failed to process '' @ p @ ustr '': ''
                         @ exception_str e)]
            else [])\<rparr>"
  using assms by (simp add: process_file_def read_csv_rows_def Let_def split: prod.splits)

text \<open>
  C10. Calling \<^verbatim>\<open>read_csv_rows\<close> only builds the generator object; the files are opened when
  the builder iterates it, inside the \<^verbatim>\<open>try\<close> block and after the worksheet was created.
  So when the file cannot be opened, the events of the file are: the sheet created, the
  attempt to open, the warning; the worksheet stays, empty; the loop goes on, and the
  run returns normally when the output can be written.
\<close>

theorem unopenable_file_leaves_empty_sheet:
  "read_csv_rows p enc d = Generator p enc d \<and>
   (open_rb E p = Inl e \<longrightarrow>
      run_generator E (read_csv_rows p enc d) = ([], Some e, [Opened p]) \<and>
      process_file E enc d v p st =
        \<lparr>sheets = sheets st @
           [\<lparr>title = fst (sanitize_sheet_name (basename p) (used_names st)), rows = []\<rparr>],
         used_names = snd (sanitize_sheet_name (basename p) (used_names st)),
         events = events st @
           [SheetCreated (fst (sanitize_sheet_name (basename p) (used_names st)))] @
           (if v then [Printed (ustr ''Adding sheet: ''
                         @ fst (sanitize_sheet_name (basename p) (used_names st))
                         @ ustr '' from '' @ p)]
            else []) @
           [Opened p] @
           (if v then [Printed (ustr ''Warning: failed to process '' @ p @ ustr '': ''
                         @ exception_str e)]
            else [])\<rparr> \<and>
      build_sheets E enc d v (p # ps) st
        = build_sheets E enc d v ps (process_file E enc d v p st)) \<and>
   (open_rb E (files ! i) = Inl e \<and> i < length files \<and>
    find_csv_files E input_dir r = Inr files \<and>
    makedirs E (if dirname (abspath E out) = [] then ustr ''.''
                else dirname (abspath E out)) = None \<and>
    wb_save E out (sheets (build_sheets E enc d v files initial_state)) = None \<longrightarrow>
      (\<exists>st'. combine_csvs_to_excel E input_dir out enc d r v = Inr st' \<and>
         length (sheets st') = length files \<and> rows (sheets st' ! i) = []))"
proof (intro conjI impI)
  show "read_csv_rows p enc d = Generator p enc d" by (simp add: read_csv_rows_def)
next
  assume "open_rb E p = Inl e"
  then show "run_generator E (read_csv_rows p enc d) = ([], Some e, [Opened p])"
    by (simp add: read_csv_rows_def)
next
  assume "open_rb E p = Inl e"
  then show "process_file E enc d v p st =
        \<lparr>sheets = sheets st @
           [\<lparr>title = fst (sanitize_sheet_name (basename p) (used_names st)), rows = []\<rparr>],
         used_names = snd (sanitize_sheet_name (basename p) (used_names st)),
         events = events st @
           [SheetCreated (fst (sanitize_sheet_name (basename p) (used_names st)))] @
           (if v then [Printed (ustr ''Adding sheet: ''
                         @ fst (sanitize_sheet_name (basename p) (used_names st))
                         @ ustr '' from '' @ p)]
            else []) @
           [Opened p] @
           (if v then [Printed (ustr ''Warning: failed to process '' @ p @ ustr '': ''
                         @ exception_str e)]
            else [])\<rparr>"
    by (rule process_file_unopenable)
next
  show "build_sheets E enc d v (p # ps) st
        = build_sheets E enc d v ps (process_file E enc d v p st)" by simp
next
  assume a: "open_rb E (files ! i) = Inl e \<and> i < length files \<and>
    find_csv_files E input_dir r = Inr files \<and>
    makedirs E (if dirname (abspath E out) = [] then ustr ''.''
                else dirname (abspath E out)) = None \<and>
    wb_save E out (sheets (build_sheets E enc d v files initial_state)) = None"
  then have "files \<noteq> []" by auto
  with a combine_succeeds [of E input_dir r files out enc d v]
  obtain st' where st': "combine_csvs_to_excel E input_dir out enc d r v = Inr st'"
    "sheets st' = sheets (build_sheets E enc d v files initial_state)" by auto
  from a have "run_generator E (read_csv_rows (files ! i) enc d) = ([], Some e, [Opened (files ! i)])"
    by (simp add: read_csv_rows_def)
  with a have "rows (sheets st' ! i) = []"
    by (simp add: st' build_sheets_rows)
  moreover have "length (sheets st') = length files"
    by (simp add: st' build_sheets_length initial_state_def)
  ultimately show "\<exists>st'. combine_csvs_to_excel E input_dir out enc d r v = Inr st' \<and>
         length (sheets st') = length files \<and> rows (sheets st' ! i) = []"
    using st' by blast
qed

theorem unopenable_file_leaves_empty_sheet_witness:
  "open_rb example_env (ustr ''data/B.csv'') = Inl (OtherError (ustr ''Permission denied'')) \<and>
   open_rb example_env ([ustr ''data/a.csv'', ustr ''data/B.csv'', ustr ''data/C.CSV''] ! 1)
     = Inl (OtherError (ustr ''Permission denied'')) \<and>
   (1::nat) < length [ustr ''data/a.csv'', ustr ''data/B.csv'', ustr ''data/C.CSV''] \<and>
   find_csv_files example_env (ustr ''data'') False
     = Inr [ustr ''data/a.csv'', ustr ''data/B.csv'', ustr ''data/C.CSV''] \<and>
   process_file example_env (ustr ''utf-8-sig'') None True (ustr ''data/B.csv'') initial_state =
     \<lparr>sheets = [\<lparr>title = ustr ''B'', rows = []\<rparr>],
      used_names = {|ustr ''B''|},
      events = [SheetCreated (ustr ''B''),
                Printed (ustr ''Adding sheet: B from data/B.csv''),
                Opened (ustr ''data/B.csv''),
                Printed (ustr ''Warning: failed to process data/B.csv: Permission denied'')]\<rparr> \<and>
   (\<exists>st'. combine_csvs_to_excel example_env (ustr ''data'') (ustr ''out.xlsx'') (ustr ''utf-8-sig'') None False True
            = Inr st' \<and>
      length (sheets st') = 3 \<and> rows (sheets st' ! 1) = [])"
proof -
  have o: "open_rb example_env (ustr ''data/B.csv'') = Inl (OtherError (ustr ''Permission denied''))"
    by (simp add: example_env_def)
  have n: "sanitize_sheet_name (basename (ustr ''data/B.csv'')) {||} = (ustr ''B'', {|ustr ''B''|})"
    by (simp add: name_eval)
  let ?files = "[ustr ''data/a.csv'', ustr ''data/B.csv'', ustr ''data/C.CSV'']"
  note T = unopenable_file_leaves_empty_sheet [of "ustr ''data/B.csv''" "ustr ''utf-8-sig''" None example_env
      "OtherError (ustr ''Permission denied'')" True initial_state "[]" ?files 1
      "ustr ''data''" False "ustr ''out.xlsx''"]
  have o': "open_rb example_env (?files ! 1) = Inl (OtherError (ustr ''Permission denied''))"
    using o by simp
  from T o have "process_file example_env (ustr ''utf-8-sig'') None True (ustr ''data/B.csv'') initial_state =
        \<lparr>sheets = sheets initial_state @
           [\<lparr>title = fst (sanitize_sheet_name (basename (ustr ''data/B.csv''))
                          (used_names initial_state)), rows = []\<rparr>],
         used_names = snd (sanitize_sheet_name (basename (ustr ''data/B.csv''))
                          (used_names initial_state)),
         events = events initial_state @
           [SheetCreated (fst (sanitize_sheet_name (basename (ustr ''data/B.csv''))
                          (used_names initial_state)))] @
           (if True then [Printed (ustr ''Adding sheet: ''
                         @ fst (sanitize_sheet_name (basename (ustr ''data/B.csv''))
                              (used_names initial_state))
                         @ ustr '' from '' @ ustr ''data/B.csv'')]
            else []) @
           [Opened (ustr ''data/B.csv'')] @
           (if True then [Printed (ustr ''Warning: failed to process '' @ ustr ''data/B.csv''
                         @ ustr '': '' @ exception_str (OtherError (ustr ''Permission denied'')))]
            else [])\<rparr>"
    by blast
  then have pf: "process_file example_env (ustr ''utf-8-sig'') None True (ustr ''data/B.csv'') initial_state =
     \<lparr>sheets = [\<lparr>title = ustr ''B'', rows = []\<rparr>],
      used_names = {|ustr ''B''|},
      events = [SheetCreated (ustr ''B''),
                Printed (ustr ''Adding sheet: B from data/B.csv''),
                Opened (ustr ''data/B.csv''),
                Printed (ustr ''Warning: failed to process data/B.csv: Permission denied'')]\<rparr>"
    by (simp add: initial_state_def n) (simp add: ustr_def)
  have len: "(1::nat) < length ?files" by simp
  from T o' len find_example example_io_ok
  have "\<exists>st'. combine_csvs_to_excel example_env (ustr ''data'') (ustr ''out.xlsx'') (ustr ''utf-8-sig'') None False True
            = Inr st' \<and>
      length (sheets st') = length ?files \<and> rows (sheets st' ! 1) = []"
    by blast
  then have "\<exists>st'. combine_csvs_to_excel example_env (ustr ''data'') (ustr ''out.xlsx'') (ustr ''utf-8-sig'') None False True
            = Inr st' \<and>
      length (sheets st') = 3 \<and> rows (sheets st' ! 1) = []"
    by (simp add: numeral_3_eq_3)
  with o o' len find_example pf show ?thesis by blast
qed

end
